theory Spec2Isabelle
  imports Main "HOL-Library.Word" "HOL-Library.Multiset" "HOL-Library.Monad_Syntax"
begin

section \<open>The bounded buffer of \<^verbatim>\<open>lab1/producer_consumer.c\<close>\<close>

text \<open>
  The program is \<^verbatim>\<open>main\<close>, which creates and joins the threads, one producer thread, N
  consumer threads and a shutdown watcher around a ring buffer that a single mutex
  protects. Every access to the buffer's fields by a
  thread happens between \<^verbatim>\<open>pthread_mutex_lock\<close> and \<^verbatim>\<open>pthread_mutex_unlock\<close>, and
  \<^verbatim>\<open>pthread_cond_wait\<close> is the only place where a thread gives the mutex up in between.
  So the stretch of code a thread runs from acquiring the mutex (or from waking up inside
  \<^verbatim>\<open>pthread_cond_wait\<close>) to releasing it (or to going to sleep in \<^verbatim>\<open>pthread_cond_wait\<close>)
  is atomic with respect to the buffer, and the model has one function per such stretch:
  it takes the buffer and returns the new buffer together with the calls and printed lines
  of that stretch, in program order. A run of the program is a sequence of such stretches,
  picked by the scheduler in any order.

  Undefined behaviour of C (an array access out of bounds, signed overflow, a remainder by
  zero) is the result \<open>None\<close>.
\<close>

subsection \<open>C integers and arrays\<close>

text \<open>\<^verbatim>\<open>int\<close> has 32 bits on the platforms the program is written for (Linux and MinGW).\<close>

definition INT_MAX :: int where
  "INT_MAX = 2147483647"

definition INT_MIN :: int where
  "INT_MIN = - 2147483648"

text \<open>\<^verbatim>\<open>a + b\<close> and \<^verbatim>\<open>a - b\<close> on \<^verbatim>\<open>int\<close>: undefined when the result does not fit.\<close>

definition int_add :: "int \<Rightarrow> int \<Rightarrow> int option" where
  "int_add a b = (if INT_MIN \<le> a + b \<and> a + b \<le> INT_MAX then Some (a + b) else None)"

definition int_sub :: "int \<Rightarrow> int \<Rightarrow> int option" where
  "int_sub a b = (if INT_MIN \<le> a - b \<and> a - b \<le> INT_MAX then Some (a - b) else None)"

text \<open>
  \<^verbatim>\<open>a % b\<close> on \<^verbatim>\<open>int\<close>: the remainder of the division that truncates towards zero, with
  the sign of \<open>a\<close>; undefined for \<open>b = 0\<close> and where the quotient overflows.
\<close>

definition int_rem :: "int \<Rightarrow> int \<Rightarrow> int option" where
  "int_rem a b =
     (if b = 0 \<or> (a = INT_MIN \<and> b = - 1) then None
      else Some (sgn a * (\<bar>a\<bar> mod \<bar>b\<bar>)))"

text \<open>
  \<^verbatim>\<open>a[i]\<close> read and written, for a block of \<open>length a\<close> ints: undefined outside the
  block.
\<close>

definition array_read :: "int list \<Rightarrow> int \<Rightarrow> int option" where
  "array_read a i = (if 0 \<le> i \<and> i < int (length a) then Some (a ! nat i) else None)"

definition array_write :: "int list \<Rightarrow> int \<Rightarrow> int \<Rightarrow> int list option" where
  "array_write a i v = (if 0 \<le> i \<and> i < int (length a) then Some (a[nat i := v]) else None)"

subsection \<open>The ring buffer\<close>

text \<open>
  \<^verbatim>\<open>ring_buffer_t\<close>. The fields \<^verbatim>\<open>size\<close> and \<^verbatim>\<open>count\<close> are \<open>size_rb\<close> and \<open>count_rb\<close>
  here. \<^verbatim>\<open>unsigned long\<close> is a word of some length \<open>'l\<close> (64 bits on Linux, 32 with
  MinGW); its arithmetic wraps around. The mutex and the two condition variables carry no
  data: they appear as the calls made on them.
\<close>

record (overloaded) ('l::len) ring_buffer_t =
  data :: "int list"
  size_rb :: int
  head :: int
  tail :: int
  count_rb :: int
  shutdown :: int
  produced_total :: "'l word"
  consumed_total :: "'l word"

datatype cond_var = not_empty | not_full

text \<open>The lines the program prints, by their format string.\<close>

datatype printed =
    signal_line
  | producer_line int int
  | producer_closes
  | consumer_line int int int
  | consumer_closes int
  | summary_lines nat nat int

datatype effect =
    mutex_lock
  | mutex_unlock
  | cond_wait cond_var
  | cond_signal cond_var
  | cond_broadcast cond_var
  | printf printed
  | perror string

datatype exit_failure =
    usage
  | perror_malloc
  | perror_mutex_init
  | perror_cond_init_not_empty
  | perror_cond_init_not_full

text \<open>
  \<^verbatim>\<open>rb_init\<close>. The environment decides what \<^verbatim>\<open>malloc\<close> and the three \<^verbatim>\<open>pthread_*_init\<close>
  calls return: \<open>mem\<close> is \<open>None\<close> for a null pointer and otherwise gives the (indeterminate)
  content of each cell of the fresh block of \<open>sz\<close> ints; the three return codes are
  zero on success.
\<close>

definition rb_init :: "int \<Rightarrow> (nat \<Rightarrow> int) option \<Rightarrow> int \<Rightarrow> int \<Rightarrow> int \<Rightarrow>
    exit_failure + ('l::len) ring_buffer_t" where
  "rb_init sz mem mtx_rc not_empty_rc not_full_rc =
     (case mem of
        None \<Rightarrow> Inl perror_malloc
      | Some cell \<Rightarrow>
          if mtx_rc \<noteq> 0 then Inl perror_mutex_init
          else if not_empty_rc \<noteq> 0 then Inl perror_cond_init_not_empty
          else if not_full_rc \<noteq> 0 then Inl perror_cond_init_not_full
          else Inr \<lparr>data = map cell [0..<nat sz], size_rb = sz, head = 0, tail = 0,
                    count_rb = 0, shutdown = 0, produced_total = 0, consumed_total = 0\<rparr>)"

text \<open>\<^verbatim>\<open>rb_enqueue\<close>; its return value is always 0 and no caller reads it.\<close>

definition rb_enqueue :: "('l::len) ring_buffer_t \<Rightarrow> int \<Rightarrow> 'l ring_buffer_t option" where
  "rb_enqueue rb value =
     do {
       d \<leftarrow> array_write (data rb) (tail rb) value;
       t1 \<leftarrow> int_add (tail rb) 1;
       t \<leftarrow> int_rem t1 (size_rb rb);
       c \<leftarrow> int_add (count_rb rb) 1;
       Some (rb\<lparr>data := d, tail := t, count_rb := c,
                produced_total := produced_total rb + 1\<rparr>)
     }"

text \<open>\<^verbatim>\<open>rb_dequeue\<close>: the value stored through \<^verbatim>\<open>out\<close>, and the buffer.\<close>

definition rb_dequeue :: "('l::len) ring_buffer_t \<Rightarrow> (int \<times> 'l ring_buffer_t) option" where
  "rb_dequeue rb =
     do {
       out \<leftarrow> array_read (data rb) (head rb);
       h1 \<leftarrow> int_add (head rb) 1;
       h \<leftarrow> int_rem h1 (size_rb rb);
       c \<leftarrow> int_sub (count_rb rb) 1;
       Some (out, rb\<lparr>head := h, count_rb := c,
                     consumed_total := consumed_total rb + 1\<rparr>)
     }"

subsection \<open>Triggering the shutdown\<close>

text \<open>
  The locked block of \<^verbatim>\<open>shutdown_watcher\<close>, which runs once the watcher has seen the stop
  flag (lines 72 to 79).
\<close>

definition shutdown_watcher_trigger ::
    "('l::len) ring_buffer_t \<Rightarrow> 'l ring_buffer_t \<times> effect list" where
  "shutdown_watcher_trigger rb =
     (if shutdown rb = 0
      then (rb\<lparr>shutdown := 1\<rparr>,
            [mutex_lock, printf signal_line, cond_broadcast not_empty,
             cond_broadcast not_full, mutex_unlock])
      else (rb, [mutex_lock, mutex_unlock]))"

text \<open>
  The locked block at the top of the loop of \<^verbatim>\<open>producer_main\<close>, run when the producer
  sees the stop flag (lines 131 to 135). It sets the flag and broadcasts without looking
  at the flag first.
\<close>

definition producer_main_trigger ::
    "('l::len) ring_buffer_t \<Rightarrow> 'l ring_buffer_t \<times> effect list" where
  "producer_main_trigger rb =
     (rb\<lparr>shutdown := 1\<rparr>,
      [mutex_lock, cond_broadcast not_empty, cond_broadcast not_full, mutex_unlock])"

text \<open>
  The same five lines in \<^verbatim>\<open>main\<close>, where it could not create the producer (lines 233 to
  237), allocate the arrays for the consumers (lines 248 to 252) or create a consumer
  (lines 266 to 270).
\<close>

definition main_trigger ::
    "('l::len) ring_buffer_t \<Rightarrow> 'l ring_buffer_t \<times> effect list" where
  "main_trigger rb =
     (rb\<lparr>shutdown := 1\<rparr>,
      [mutex_lock, cond_broadcast not_empty, cond_broadcast not_full, mutex_unlock])"

subsection \<open>Put: the locked block of the producer\<close>

datatype put_result = put_success | shutdown_rejected | put_blocked

text \<open>
  Lines 141 to 154 of \<^verbatim>\<open>producer_main\<close>, without the increment of the local \<^verbatim>\<open>value\<close>
  (line 151), which is part of \<open>producer_main_step\<close> below. With \<open>resumed = False\<close> the
  block starts at \<^verbatim>\<open>pthread_mutex_lock\<close> (line 141); with \<open>resumed = True\<close> the thread has
  woken up inside \<^verbatim>\<open>pthread_cond_wait\<close> (line 145), holds the mutex again and goes on with
  the test of the \<^verbatim>\<open>while\<close>. The result \<open>put_blocked\<close> is the thread going to sleep in
  \<^verbatim>\<open>pthread_cond_wait\<close>, which releases the mutex.
\<close>

definition producer_put :: "bool \<Rightarrow> ('l::len) ring_buffer_t \<Rightarrow> int \<Rightarrow>
    (put_result \<times> 'l ring_buffer_t \<times> effect list) option" where
  "producer_put resumed rb value =
     (let entry = (if resumed then [] else [mutex_lock]) in
      if \<not> resumed \<and> shutdown rb \<noteq> 0
      then Some (shutdown_rejected, rb, entry @ [mutex_unlock])
      else if count_rb rb = size_rb rb \<and> shutdown rb = 0
      then Some (put_blocked, rb, entry @ [cond_wait not_full])
      else if shutdown rb \<noteq> 0
      then Some (shutdown_rejected, rb, entry @ [mutex_unlock])
      else do {
        rb' \<leftarrow> rb_enqueue rb value;
        Some (put_success, rb',
              entry @ [printf (producer_line value (count_rb rb')),
                       cond_signal not_empty, mutex_unlock])
      })"

subsection \<open>Take: the locked block of a consumer\<close>

datatype take_result = take_success int | shutdown_drained | take_blocked

datatype 'a blocking = sleeps | goes_on 'a

text \<open>
  The \<^verbatim>\<open>while\<close> loop of \<^verbatim>\<open>consumer_main\<close> (lines 169 to 178), up to the point where the
  thread either leaves the loop or goes to sleep in \<^verbatim>\<open>pthread_cond_wait\<close>. The argument
  \<open>g_stop_flag\<close> is the value the thread reads from the global flag.
\<close>

definition consumer_wait :: "int \<Rightarrow> ('l::len) ring_buffer_t \<Rightarrow>
    ('l ring_buffer_t \<times> effect list) blocking" where
  "consumer_wait g_stop_flag rb =
     (if count_rb rb = 0 \<and> shutdown rb = 0
      then (if g_stop_flag \<noteq> 0
            then goes_on (rb\<lparr>shutdown := 1\<rparr>,
                          [cond_broadcast not_empty, cond_broadcast not_full])
            else sleeps)
      else goes_on (rb, []))"

text \<open>What follows the loop, up to the unlock (lines 180 to 189).\<close>

definition consumer_after_wait :: "('l::len) ring_buffer_t \<Rightarrow>
    (take_result \<times> 'l ring_buffer_t \<times> effect list) option" where
  "consumer_after_wait rb =
     (if shutdown rb \<noteq> 0 \<and> count_rb rb = 0
      then Some (shutdown_drained, rb, [mutex_unlock])
      else do {
        (v, rb') \<leftarrow> rb_dequeue rb;
        Some (take_success v, rb', [cond_signal not_full, mutex_unlock])
      })"

text \<open>
  Lines 167 to 189 of \<^verbatim>\<open>consumer_main\<close>; \<open>resumed\<close> as for the producer (the thread woke
  up in line 177).
\<close>

definition consumer_take :: "bool \<Rightarrow> int \<Rightarrow> ('l::len) ring_buffer_t \<Rightarrow>
    (take_result \<times> 'l ring_buffer_t \<times> effect list) option" where
  "consumer_take resumed g_stop_flag rb =
     (let entry = (if resumed then [] else [mutex_lock]) in
      case consumer_wait g_stop_flag rb of
        sleeps \<Rightarrow> Some (take_blocked, rb, entry @ [cond_wait not_empty])
      | goes_on (rb1, es1) \<Rightarrow>
          do {
            (r, rb2, es2) \<leftarrow> consumer_after_wait rb1;
            Some (r, rb2, entry @ es1 @ es2)
          })"

subsection \<open>The threads\<close>

text \<open>
  Where a thread is: \<open>not_created\<close> before \<^verbatim>\<open>main\<close> has created it, \<open>running\<close> at the top
  of its loop, \<open>sleeping\<close> in \<^verbatim>\<open>sleep_seconds\<close> before it takes the lock (the producer,
  line 139), \<open>waiting\<close> inside \<^verbatim>\<open>pthread_cond_wait\<close>, \<open>stopped\<close> once its function has
  returned.
\<close>

datatype pc = not_created | running | sleeping | waiting | stopped

text \<open>
  Where \<^verbatim>\<open>main\<close> is, once the buffer is initialised: before one of its calls of
  \<^verbatim>\<open>pthread_create\<close> (lines 222, 231 and 264) or before the two calls of \<^verbatim>\<open>malloc\<close> for
  the consumers (lines 244 and 245); in the joins of one of its three exits (line 238,
  lines 253 and 254, lines 277 to 279); or returned with its exit status.
\<close>

datatype exit_status = EXIT_SUCCESS | EXIT_FAILURE

datatype main_at =
    create_watcher
  | create_producer
  | alloc_consumers
  | create_consumers
  | join_watcher
  | join_producer_watcher
  | join_all
  | returned exit_status

text \<open>
  The shared state (the buffer \<^verbatim>\<open>rb\<close> of \<^verbatim>\<open>main\<close> and the global \<^verbatim>\<open>g_stop_flag\<close>), and
  of each thread where it is and its locals: the \<^verbatim>\<open>N\<close> of \<^verbatim>\<open>main\<close> is \<open>main_N\<close>, the
  producer's \<^verbatim>\<open>value\<close> is \<open>prod_value\<close>. The list \<open>consumers\<close> holds the consumers
  created so far, in the order of their creation: its length is the index \<^verbatim>\<open>i\<close> of the
  loop that creates them, and the consumer at index \<open>i\<close> has the id \<open>i + 1\<close>.
\<close>

record (overloaded) ('l::len) system =
  buf :: "'l ring_buffer_t"
  g_stop_flag :: int
  main_pc :: main_at
  main_N :: int
  watcher :: pc
  producer :: pc
  prod_value :: int
  consumers :: "pc list"

text \<open>\<^verbatim>\<open>handle_sigint\<close>.\<close>

definition handle_sigint :: "('l::len) system \<Rightarrow> 'l system" where
  "handle_sigint s = s\<lparr>g_stop_flag := 1\<rparr>"

text \<open>
  \<^verbatim>\<open>shutdown_watcher\<close>: one round of its polling loop, and the locked block once the flag is
  set.
\<close>

definition shutdown_watcher_step :: "('l::len) system \<Rightarrow> 'l system \<times> effect list" where
  "shutdown_watcher_step s =
     (if watcher s \<noteq> running \<or> g_stop_flag s = 0 then (s, [])
      else (let (rb, es) = shutdown_watcher_trigger (buf s)
            in (s\<lparr>buf := rb, watcher := stopped\<rparr>, es)))"

text \<open>
  \<^verbatim>\<open>producer_main\<close> from the locked block on: what the thread does with the result of the
  block, with the increment of \<^verbatim>\<open>value\<close> after a successful enqueue (line 151).
\<close>

definition producer_main_put :: "bool \<Rightarrow> ('l::len) system \<Rightarrow> ('l system \<times> effect list) option" where
  "producer_main_put resumed s =
     do {
       (r, rb, es) \<leftarrow> producer_put resumed (buf s) (prod_value s);
       case r of
         put_success \<Rightarrow>
           do {
             v \<leftarrow> int_add (prod_value s) 1;
             Some (s\<lparr>buf := rb, producer := running, prod_value := v\<rparr>, es)
           }
       | shutdown_rejected \<Rightarrow>
           Some (s\<lparr>buf := rb, producer := stopped\<rparr>, es @ [printf producer_closes])
       | put_blocked \<Rightarrow>
           Some (s\<lparr>buf := rb, producer := waiting\<rparr>, es)
     }"

text \<open>
  \<^verbatim>\<open>producer_main\<close>, one step: at the top of the \<^verbatim>\<open>for\<close> loop the thread reads the stop
  flag and either triggers the shutdown and returns, or goes to sleep for the interval;
  after the sleep it runs the locked block from the lock on; after a wait it runs the rest
  of the locked block. The flag is read once per round, before the sleep: what other
  threads do during the sleep comes between the two steps.
\<close>

definition producer_main_step :: "('l::len) system \<Rightarrow> ('l system \<times> effect list) option" where
  "producer_main_step s =
     (case producer s of
        not_created \<Rightarrow> Some (s, [])
      | stopped \<Rightarrow> Some (s, [])
      | running \<Rightarrow>
          if g_stop_flag s \<noteq> 0
          then (let (rb, es) = producer_main_trigger (buf s)
                in Some (s\<lparr>buf := rb, producer := stopped\<rparr>, es @ [printf producer_closes]))
          else Some (s\<lparr>producer := sleeping\<rparr>, [])
      | sleeping \<Rightarrow> producer_main_put False s
      | waiting \<Rightarrow> producer_main_put True s)"

text \<open>
  \<^verbatim>\<open>consumer_main\<close> of the consumer at index \<open>i\<close>, one step: the locked block from the lock
  on, or the rest of it after a wait, and what the thread does with the result. The stop
  flag is read inside the block. \<^verbatim>\<open>current\<close> is the count read after the dequeue, under
  the lock; the line with it is printed after the unlock and is put at the end of the
  step here.
\<close>

definition consumer_main_step :: "nat \<Rightarrow> ('l::len) system \<Rightarrow> ('l system \<times> effect list) option" where
  "consumer_main_step i s =
     (if length (consumers s) \<le> i \<or> consumers s ! i = stopped then Some (s, [])
      else do {
        (r, rb, es) \<leftarrow> consumer_take (consumers s ! i = waiting) (g_stop_flag s) (buf s);
        case r of
          take_success v \<Rightarrow>
            Some (s\<lparr>buf := rb, consumers := (consumers s)[i := running]\<rparr>,
                  es @ [printf (consumer_line (int i + 1) v (count_rb rb))])
        | shutdown_drained \<Rightarrow>
            Some (s\<lparr>buf := rb, consumers := (consumers s)[i := stopped]\<rparr>,
                  es @ [printf (consumer_closes (int i + 1))])
        | take_blocked \<Rightarrow>
            Some (s\<lparr>buf := rb, consumers := (consumers s)[i := waiting]\<rparr>, es)
      })"

text \<open>
  The end of \<^verbatim>\<open>main\<close> (lines 277 to 285): it joins the watcher, the producer and the
  consumers 0 to \<open>N - 1\<close>, each join blocking until the thread has returned, and then
  prints the three lines of the summary from the fields of the buffer. A thread that has
  returned stays so: when the last join returns, all the threads joined have returned, and
  the joins are one test here. \<^verbatim>\<open>%lu\<close> prints the value of the counter.
\<close>

definition main_summary :: "('l::len) system \<Rightarrow> ('l system \<times> effect list) blocking" where
  "main_summary s =
     (if watcher s = stopped \<and> producer s = stopped \<and>
         (\<forall>c \<in> set (take (nat (main_N s)) (consumers s)). c = stopped)
      then goes_on (s, [printf (summary_lines (unat (produced_total (buf s)))
                                              (unat (consumed_total (buf s)))
                                              (count_rb (buf s)))])
      else sleeps)"

text \<open>
  \<^verbatim>\<open>main\<close> from line 222 on, one step: a call of \<^verbatim>\<open>pthread_create\<close> or the two calls of
  \<^verbatim>\<open>malloc\<close> with what follows from their result, or the joins of the exit it has taken.
  The argument \<open>rc\<close> is what the environment returns to the call of the step: the return
  code of \<^verbatim>\<open>pthread_create\<close>, zero on success; for the allocation, zero when neither
  pointer is null. A thread created is \<open>running\<close> at once, so that the other threads
  take their steps while \<^verbatim>\<open>main\<close> is still creating threads. Where a call fails, the locked
  block that follows it is part of the same step: the failed call has touched nothing the
  other threads see. In the loop that creates the consumers, the index \<^verbatim>\<open>i\<close> is the number
  of consumers created so far; when the creation fails, \<^verbatim>\<open>N\<close> becomes \<^verbatim>\<open>i\<close> and \<^verbatim>\<open>main\<close>
  goes on to the joins and the summary of its regular exit. \<^verbatim>\<open>rb_destroy\<close> and the calls
  of \<^verbatim>\<open>free\<close>, which \<^verbatim>\<open>main\<close> makes after its joins, are left out: no thread runs any
  more then.
\<close>

definition main_step :: "int \<Rightarrow> ('l::len) system \<Rightarrow> 'l system \<times> effect list" where
  "main_step rc s =
     (case main_pc s of
        create_watcher \<Rightarrow>
          if rc \<noteq> 0
          then (s\<lparr>main_pc := returned EXIT_FAILURE\<rparr>,
                [perror ''pthread_create shutdown_watcher''])
          else (s\<lparr>main_pc := create_producer, watcher := running\<rparr>, [])
      | create_producer \<Rightarrow>
          if rc \<noteq> 0
          then (let (rb, es) = main_trigger (buf s)
                in (s\<lparr>buf := rb, main_pc := join_watcher\<rparr>,
                    perror ''pthread_create producer'' # es))
          else (s\<lparr>main_pc := alloc_consumers, producer := running\<rparr>, [])
      | alloc_consumers \<Rightarrow>
          if rc \<noteq> 0
          then (let (rb, es) = main_trigger (buf s)
                in (s\<lparr>buf := rb, main_pc := join_producer_watcher\<rparr>, perror ''malloc'' # es))
          else (s\<lparr>main_pc := create_consumers\<rparr>, [])
      | create_consumers \<Rightarrow>
          if int (length (consumers s)) < main_N s
          then (if rc \<noteq> 0
                then (let (rb, es) = main_trigger (buf s)
                      in (s\<lparr>buf := rb, main_pc := join_all,
                            main_N := int (length (consumers s))\<rparr>,
                          perror ''pthread_create consumer'' # es))
                else (s\<lparr>consumers := consumers s @ [running]\<rparr>, []))
          else (s\<lparr>main_pc := join_all\<rparr>, [])
      | join_watcher \<Rightarrow>
          if watcher s = stopped then (s\<lparr>main_pc := returned EXIT_FAILURE\<rparr>, []) else (s, [])
      | join_producer_watcher \<Rightarrow>
          if producer s = stopped \<and> watcher s = stopped
          then (s\<lparr>main_pc := returned EXIT_FAILURE\<rparr>, [])
          else (s, [])
      | join_all \<Rightarrow>
          (case main_summary s of
             sleeps \<Rightarrow> (s, [])
           | goes_on (s', es) \<Rightarrow> (s'\<lparr>main_pc := returned EXIT_SUCCESS\<rparr>, es))
      | returned st \<Rightarrow> (s, []))"

text \<open>
  What the scheduler picks next: the signal handler, the next step of \<^verbatim>\<open>main\<close> with the
  return code of its call, or the next step of a thread. A run is a list of picks; its
  trace is the effects of all steps in order.
\<close>

datatype pick =
    sigint
  | main_thread int
  | watcher_thread
  | producer_thread
  | consumer_thread nat

fun step :: "pick \<Rightarrow> ('l::len) system \<Rightarrow> ('l system \<times> effect list) option" where
  "step sigint s = Some (handle_sigint s, [])"
| "step (main_thread rc) s = Some (main_step rc s)"
| "step watcher_thread s = Some (shutdown_watcher_step s)"
| "step producer_thread s = producer_main_step s"
| "step (consumer_thread i) s = consumer_main_step i s"

fun run :: "pick list \<Rightarrow> ('l::len) system \<Rightarrow> ('l system \<times> effect list) option" where
  "run [] s = Some (s, [])"
| "run (p # ps) s =
     do {
       (s1, es1) \<leftarrow> step p s;
       (s2, es2) \<leftarrow> run ps s1;
       Some (s2, es1 @ es2)
     }"

text \<open>
  \<^verbatim>\<open>main\<close> up to line 218: the check of the arguments (already converted by \<^verbatim>\<open>atoi\<close>) and
  \<^verbatim>\<open>rb_init\<close>. No thread is created yet; the handler of the signal is installed.
\<close>

definition main_start :: "int \<Rightarrow> int \<Rightarrow> int \<Rightarrow> (nat \<Rightarrow> int) option \<Rightarrow> int \<Rightarrow> int \<Rightarrow> int \<Rightarrow>
    exit_failure + ('l::len) system" where
  "main_start N BufferSize TimeInterval mem mtx_rc not_empty_rc not_full_rc =
     (if N < 1 \<or> BufferSize < 1 \<or> TimeInterval < 0 then Inl usage
      else case rb_init BufferSize mem mtx_rc not_empty_rc not_full_rc of
             Inl e \<Rightarrow> Inl e
           | Inr rb \<Rightarrow>
               Inr \<lparr>buf = rb, g_stop_flag = 0, main_pc = create_watcher, main_N = N,
                    watcher = not_created, producer = not_created, prod_value = 1,
                    consumers = []\<rparr>)"

subsection \<open>Notions used by the properties\<close>

text \<open>
  A well-formed buffer: \<^verbatim>\<open>size\<close> is a positive \<^verbatim>\<open>int\<close>, \<^verbatim>\<open>data\<close> points to a block of
  \<^verbatim>\<open>size\<close> ints, the two indices are inside the block and \<^verbatim>\<open>count\<close> is between 0 and
  \<^verbatim>\<open>size\<close>.
\<close>

definition ring_ok :: "('l::len) ring_buffer_t \<Rightarrow> bool" where
  "ring_ok rb =
     (1 \<le> size_rb rb \<and> size_rb rb \<le> INT_MAX \<and> int (length (data rb)) = size_rb rb \<and>
      0 \<le> head rb \<and> head rb < size_rb rb \<and>
      0 \<le> tail rb \<and> tail rb < size_rb rb \<and>
      0 \<le> count_rb rb \<and> count_rb rb \<le> size_rb rb)"

text \<open>The ring invariant: in addition, \<^verbatim>\<open>tail\<close> is \<^verbatim>\<open>count\<close> slots after \<^verbatim>\<open>head\<close>.\<close>

definition ring_inv :: "('l::len) ring_buffer_t \<Rightarrow> bool" where
  "ring_inv rb = (ring_ok rb \<and> tail rb = (head rb + count_rb rb) mod size_rb rb)"

text \<open>The buffered items, oldest first: the \<^verbatim>\<open>count\<close> slots from \<^verbatim>\<open>head\<close> on, cyclically.\<close>

definition contents :: "('l::len) ring_buffer_t \<Rightarrow> int list" where
  "contents rb =
     map (\<lambda>k. data rb ! nat ((head rb + int k) mod size_rb rb)) [0..<nat (count_rb rb)]"

text \<open>
  The values of the successful puts and takes of a trace, in order: those of the lines the
  producer and the consumers print for them.
\<close>

fun produced :: "effect list \<Rightarrow> int list" where
  "produced [] = []"
| "produced (printf (producer_line v c) # es) = v # produced es"
| "produced (e # es) = produced es"

fun consumed :: "effect list \<Rightarrow> int list" where
  "consumed [] = []"
| "consumed (printf (consumer_line i v c) # es) = v # consumed es"
| "consumed (e # es) = consumed es"

text \<open>
  What holds of the whole system between any two steps: the ring invariant, the flag is 0
  or 1, the two counters differ by \<^verbatim>\<open>count\<close>, the producer's \<^verbatim>\<open>value\<close> is a positive
  \<^verbatim>\<open>int\<close>, no more than \<^verbatim>\<open>N\<close> consumers are created, and a consumer has only stopped
  with the shutdown set and the buffer empty.
\<close>

definition system_inv :: "('l::len) system \<Rightarrow> bool" where
  "system_inv s =
     (ring_inv (buf s) \<and>
      (shutdown (buf s) = 0 \<or> shutdown (buf s) = 1) \<and>
      produced_total (buf s) - consumed_total (buf s) = word_of_int (count_rb (buf s)) \<and>
      1 \<le> prod_value s \<and> prod_value s \<le> INT_MAX \<and>
      int (length (consumers s)) \<le> main_N s \<and>
      (stopped \<in> set (consumers s) \<longrightarrow> shutdown (buf s) \<noteq> 0 \<and> count_rb (buf s) = 0))"

text \<open>
  What one step does to the system, and what a run does: the invariant holds afterwards;
  the values taken followed by the buffered items are the items buffered before followed
  by the values put; the producer's \<^verbatim>\<open>value\<close> steps by one with each put; each counter
  grows by the number of puts and takes; a shutdown stays set and admits no put.
\<close>

definition step_post :: "('l::len) system \<Rightarrow> 'l system \<Rightarrow> effect list \<Rightarrow> bool" where
  "step_post s s' es =
     (system_inv s' \<and>
      consumed es @ contents (buf s') = contents (buf s) @ produced es \<and>
      (produced es = [] \<and> prod_value s' = prod_value s \<or>
       produced es = [prod_value s] \<and> prod_value s' = prod_value s + 1) \<and>
      produced_total (buf s') = produced_total (buf s) + of_nat (length (produced es)) \<and>
      consumed_total (buf s') = consumed_total (buf s) + of_nat (length (consumed es)) \<and>
      (shutdown (buf s) \<noteq> 0 \<longrightarrow> shutdown (buf s') \<noteq> 0 \<and> produced es = []) \<and>
      size_rb (buf s') = size_rb (buf s))"

definition run_post :: "('l::len) system \<Rightarrow> 'l system \<Rightarrow> effect list \<Rightarrow> bool" where
  "run_post s s' es =
     (system_inv s' \<and>
      consumed es @ contents (buf s') = contents (buf s) @ produced es \<and>
      prod_value s \<le> prod_value s' \<and>
      produced es = [prod_value s..prod_value s' - 1] \<and>
      produced_total (buf s') = produced_total (buf s) + of_nat (length (produced es)) \<and>
      consumed_total (buf s') = consumed_total (buf s) + of_nat (length (consumed es)) \<and>
      (shutdown (buf s) \<noteq> 0 \<longrightarrow> shutdown (buf s') \<noteq> 0 \<and> produced es = []) \<and>
      size_rb (buf s') = size_rb (buf s))"

text \<open>
  With one consumer and one slot: the state \<^verbatim>\<open>main\<close> starts from, the four steps in which
  it creates the watcher, the producer and the consumer, a run of \<open>n\<close> rounds in which the
  producer reads the stop flag, sleeps and puts one value and the consumer takes it, and
  the state after the four steps and \<open>n\<close> such rounds.
\<close>

definition pp_start :: "64 system" where
  "pp_start =
     \<lparr>buf = \<lparr>data = [0], size_rb = 1, head = 0, tail = 0, count_rb = 0, shutdown = 0,
             produced_total = 0, consumed_total = 0\<rparr>,
      g_stop_flag = 0, main_pc = create_watcher, main_N = 1, watcher = not_created,
      producer = not_created, prod_value = 1, consumers = []\<rparr>"

definition pp_boot :: "pick list" where
  "pp_boot = [main_thread 0, main_thread 0, main_thread 0, main_thread 0]"

definition ping_pong :: "nat \<Rightarrow> pick list" where
  "ping_pong n = concat (replicate n [producer_thread, producer_thread, consumer_thread 0])"

definition pp_state :: "nat \<Rightarrow> 64 system" where
  "pp_state n =
     \<lparr>buf = \<lparr>data = [int n], size_rb = 1, head = 0, tail = 0, count_rb = 0, shutdown = 0,
             produced_total = of_nat n, consumed_total = of_nat n\<rparr>,
      g_stop_flag = 0, main_pc = create_consumers, main_N = 1, watcher = running,
      producer = running, prod_value = int n + 1, consumers = [running]\<rparr>"

text \<open>
  A run used as the example below, with two consumers and two slots: \<^verbatim>\<open>main\<close> creates the
  watcher, the producer and the two consumers; the producer puts 1 and goes to sleep for
  its next round; the signal arrives and the watcher triggers the shutdown; then the
  producer wakes up and is rejected, the first consumer takes 1 and stops at its next
  round, the second consumer stops, and \<^verbatim>\<open>main\<close> leaves its loop for the joins.
\<close>

definition ex_start :: "64 system" where
  "ex_start =
     \<lparr>buf = \<lparr>data = [0, 0], size_rb = 2, head = 0, tail = 0, count_rb = 0, shutdown = 0,
             produced_total = 0, consumed_total = 0\<rparr>,
      g_stop_flag = 0, main_pc = create_watcher, main_N = 2, watcher = not_created,
      producer = not_created, prod_value = 1, consumers = []\<rparr>"

definition ex_picks1 :: "pick list" where
  "ex_picks1 =
     [main_thread 0, main_thread 0, main_thread 0, main_thread 0, main_thread 0,
      producer_thread, producer_thread, producer_thread, sigint, watcher_thread]"

definition ex_mid :: "64 system" where
  "ex_mid =
     \<lparr>buf = \<lparr>data = [1, 0], size_rb = 2, head = 0, tail = 1, count_rb = 1, shutdown = 1,
             produced_total = 1, consumed_total = 0\<rparr>,
      g_stop_flag = 1, main_pc = create_consumers, main_N = 2, watcher = stopped,
      producer = sleeping, prod_value = 2, consumers = [running, running]\<rparr>"

definition ex_trace1 :: "effect list" where
  "ex_trace1 =
     [mutex_lock, printf (producer_line 1 1), cond_signal not_empty, mutex_unlock,
      mutex_lock, printf signal_line, cond_broadcast not_empty, cond_broadcast not_full,
      mutex_unlock]"

definition ex_picks2 :: "pick list" where
  "ex_picks2 =
     [producer_thread, consumer_thread 0, consumer_thread 0, consumer_thread 1, watcher_thread,
      main_thread 0]"

definition ex_end :: "64 system" where
  "ex_end =
     \<lparr>buf = \<lparr>data = [1, 0], size_rb = 2, head = 1, tail = 1, count_rb = 0, shutdown = 1,
             produced_total = 1, consumed_total = 1\<rparr>,
      g_stop_flag = 1, main_pc = join_all, main_N = 2, watcher = stopped,
      producer = stopped, prod_value = 2, consumers = [stopped, stopped]\<rparr>"

definition ex_trace2 :: "effect list" where
  "ex_trace2 =
     [mutex_lock, mutex_unlock, printf producer_closes,
      mutex_lock, cond_signal not_full, mutex_unlock, printf (consumer_line 1 1 0),
      mutex_lock, mutex_unlock, printf (consumer_closes 1),
      mutex_lock, mutex_unlock, printf (consumer_closes 2)]"

text \<open>
  A second run from the same start, in which the creation of the first consumer fails:
  \<^verbatim>\<open>main\<close> creates the watcher and the producer and allocates the arrays; the producer puts
  1; the first \<^verbatim>\<open>pthread_create\<close> for a consumer returns an error, so that \<^verbatim>\<open>main\<close> triggers
  the shutdown and sets \<^verbatim>\<open>N\<close> to 0; the signal arrives, the watcher and the producer
  return; \<^verbatim>\<open>main\<close> gets past its joins and prints the summary, with one item left in the
  buffer.
\<close>

definition ex_fail_picks :: "pick list" where
  "ex_fail_picks =
     [main_thread 0, main_thread 0, main_thread 0, producer_thread, producer_thread,
      main_thread 1, sigint, watcher_thread, producer_thread, main_thread 0]"

definition ex_fail_end :: "64 system" where
  "ex_fail_end =
     \<lparr>buf = \<lparr>data = [1, 0], size_rb = 2, head = 0, tail = 1, count_rb = 1, shutdown = 1,
             produced_total = 1, consumed_total = 0\<rparr>,
      g_stop_flag = 1, main_pc = returned EXIT_SUCCESS, main_N = 0, watcher = stopped,
      producer = stopped, prod_value = 2, consumers = []\<rparr>"

definition ex_fail_trace :: "effect list" where
  "ex_fail_trace =
     [mutex_lock, printf (producer_line 1 1), cond_signal not_empty, mutex_unlock,
      perror ''pthread_create consumer'',
      mutex_lock, cond_broadcast not_empty, cond_broadcast not_full, mutex_unlock,
      mutex_lock, mutex_unlock,
      mutex_lock, cond_broadcast not_empty, cond_broadcast not_full, mutex_unlock,
      printf producer_closes,
      printf (summary_lines 1 0 1)]"

section \<open>Properties\<close>

subsection \<open>The ring operations\<close>


lemma int_rem_nonneg: "0 \<le> a \<Longrightarrow> 0 < b \<Longrightarrow> int_rem a b = Some (a mod b)"
  by (simp add: int_rem_def INT_MIN_def sgn_if)

lemma rb_enqueue_ok:
  assumes "ring_ok rb" and "count_rb rb < size_rb rb"
  shows "rb_enqueue rb v =
           Some (rb\<lparr>data := (data rb)[nat (tail rb) := v],
                    tail := (tail rb + 1) mod size_rb rb,
                    count_rb := count_rb rb + 1,
                    produced_total := produced_total rb + 1\<rparr>)"
  using assms
  by (simp add: rb_enqueue_def ring_ok_def array_write_def int_add_def int_rem_nonneg
      INT_MIN_def INT_MAX_def)

lemma rb_dequeue_ok:
  assumes "ring_ok rb"
  shows "rb_dequeue rb =
           Some (data rb ! nat (head rb),
                 rb\<lparr>head := (head rb + 1) mod size_rb rb,
                    count_rb := count_rb rb - 1,
                    consumed_total := consumed_total rb + 1\<rparr>)"
  using assms
  by (simp add: rb_dequeue_def ring_ok_def array_read_def int_add_def int_sub_def int_rem_nonneg
      INT_MIN_def INT_MAX_def)

lemma mod_shift_distinct:
  fixes h k c n :: int
  assumes "0 \<le> k" "k < c" "c < n" "(h + k) mod n = (h + c) mod n"
  shows False
proof -
  from assms(4) have "(h + c) mod n = (h + k) mod n" by simp
  then have "n dvd (h + c) - (h + k)"
    by (rule mod_eq_dvd_iff [THEN iffD1])
  then have "n dvd c - k" by simp
  moreover have "0 < c - k" "c - k < n" using assms by auto
  ultimately show False using zdvd_not_zless by blast
qed

lemma ring_inv_enqueue:
  assumes "ring_inv rb" and "count_rb rb < size_rb rb" and "rb_enqueue rb v = Some rb'"
  shows "ring_inv rb'"
proof -
  have ok: "ring_ok rb" and t: "tail rb = (head rb + count_rb rb) mod size_rb rb"
    using assms(1) by (simp_all add: ring_inv_def)
  have rb': "rb' = rb\<lparr>data := (data rb)[nat (tail rb) := v],
                    tail := (tail rb + 1) mod size_rb rb,
                    count_rb := count_rb rb + 1,
                    produced_total := produced_total rb + 1\<rparr>"
    using rb_enqueue_ok [OF ok assms(2), of v] assms(3) by simp
  have "(tail rb + 1) mod size_rb rb = (head rb + (count_rb rb + 1)) mod size_rb rb"
    by (simp add: t mod_simps add.assoc)
  then show ?thesis
    using ok assms(2) by (simp add: rb' ring_inv_def ring_ok_def)
qed

lemma ring_inv_dequeue:
  assumes "ring_inv rb" and "0 < count_rb rb" and "rb_dequeue rb = Some (v, rb')"
  shows "ring_inv rb'"
proof -
  have ok: "ring_ok rb" and t: "tail rb = (head rb + count_rb rb) mod size_rb rb"
    using assms(1) by (simp_all add: ring_inv_def)
  have rb': "rb' = rb\<lparr>head := (head rb + 1) mod size_rb rb,
                    count_rb := count_rb rb - 1,
                    consumed_total := consumed_total rb + 1\<rparr>"
    using rb_dequeue_ok [OF ok] assms(3) by simp
  have "((head rb + 1) mod size_rb rb + (count_rb rb - 1)) mod size_rb rb
          = (head rb + count_rb rb) mod size_rb rb"
    by (simp add: mod_simps)
  then show ?thesis
    using ok assms(2) by (simp add: rb' ring_inv_def ring_ok_def t)
qed

lemma contents_enqueue:
  assumes "ring_inv rb" and "count_rb rb < size_rb rb" and "rb_enqueue rb v = Some rb'"
  shows "contents rb' = contents rb @ [v]"
proof -
  have ok: "ring_ok rb" and t: "tail rb = (head rb + count_rb rb) mod size_rb rb"
    using assms(1) by (simp_all add: ring_inv_def)
  have rb': "rb' = rb\<lparr>data := (data rb)[nat (tail rb) := v],
                    tail := (tail rb + 1) mod size_rb rb,
                    count_rb := count_rb rb + 1,
                    produced_total := produced_total rb + 1\<rparr>"
    using rb_enqueue_ok [OF ok assms(2), of v] assms(3) by simp
  let ?n = "size_rb rb" and ?c = "count_rb rb" and ?h = "head rb"
  have c0: "0 \<le> ?c" and n: "0 < ?n" and len: "int (length (data rb)) = ?n"
    and t0: "0 \<le> tail rb" and tn: "tail rb < ?n"
    using ok by (simp_all add: ring_ok_def)
  have upt: "[0..<nat (?c + 1)] = [0..<nat ?c] @ [nat ?c]"
    using c0 by (simp add: nat_add_distrib)
  have old: "(data rb)[nat (tail rb) := v] ! nat ((?h + int k) mod ?n)
               = data rb ! nat ((?h + int k) mod ?n)" if "k < nat ?c" for k
  proof -
    have "(?h + int k) mod ?n \<noteq> tail rb"
    proof
      assume "(?h + int k) mod ?n = tail rb"
      then have "(?h + int k) mod ?n = (?h + ?c) mod ?n" using t by simp
      moreover have "int k < ?c" using that by linarith
      ultimately show False
        using mod_shift_distinct [of "int k" ?c ?n ?h] assms(2) by simp
    qed
    moreover have "0 \<le> (?h + int k) mod ?n" using n by simp
    ultimately have "nat ((?h + int k) mod ?n) \<noteq> nat (tail rb)"
      using t0 by simp
    then show ?thesis by simp
  qed
  have new: "(data rb)[nat (tail rb) := v] ! nat ((?h + int (nat ?c)) mod ?n) = v"
    using c0 t t0 tn len by simp
  show ?thesis
    using old new by (simp add: contents_def rb' upt)
qed

lemma contents_dequeue:
  assumes "ring_inv rb" and "0 < count_rb rb" and "rb_dequeue rb = Some (v, rb')"
  shows "contents rb = v # contents rb'"
proof -
  have ok: "ring_ok rb"
    using assms(1) by (simp add: ring_inv_def)
  have rb': "rb' = rb\<lparr>head := (head rb + 1) mod size_rb rb,
                    count_rb := count_rb rb - 1,
                    consumed_total := consumed_total rb + 1\<rparr>"
    and v: "v = data rb ! nat (head rb)"
    using rb_dequeue_ok [OF ok] assms(3) by simp_all
  let ?n = "size_rb rb" and ?c = "count_rb rb" and ?h = "head rb"
  have h: "?h mod ?n = ?h" using ok by (simp add: ring_ok_def)
  have upt: "[0..<nat ?c] = 0 # map Suc [0..<nat (?c - 1)]"
    using assms(2) by (simp add: upt_conv_Cons map_Suc_upt nat_diff_distrib' Suc_nat_eq_nat_zadd1)
  have shift: "((?h + 1) mod ?n + int k) mod ?n = (?h + int (Suc k)) mod ?n" for k
    by (simp add: mod_simps ac_simps)
  show ?thesis
    by (simp add: contents_def rb' v upt h shift comp_def del: upt_Suc)
qed


lemma produced_append: "produced (xs @ ys) = produced xs @ produced ys"
  by (induction xs rule: produced.induct) simp_all

lemma consumed_append: "consumed (xs @ ys) = consumed xs @ consumed ys"
  by (induction xs rule: consumed.induct) simp_all

lemma ring_inv_shutdown [simp]: "ring_inv (rb\<lparr>shutdown := x\<rparr>) = ring_inv rb"
  by (simp add: ring_inv_def ring_ok_def)

lemma contents_shutdown [simp]: "contents (rb\<lparr>shutdown := x\<rparr>) = contents rb"
  by (simp add: contents_def)

lemma producer_put_eq:
  assumes ok: "ring_ok rb"
  shows "producer_put resumed rb v =
     Some (if shutdown rb \<noteq> 0
           then (shutdown_rejected, rb, (if resumed then [] else [mutex_lock]) @ [mutex_unlock])
           else if count_rb rb = size_rb rb
           then (put_blocked, rb, (if resumed then [] else [mutex_lock]) @ [cond_wait not_full])
           else (put_success,
                 rb\<lparr>data := (data rb)[nat (tail rb) := v],
                    tail := (tail rb + 1) mod size_rb rb,
                    count_rb := count_rb rb + 1,
                    produced_total := produced_total rb + 1\<rparr>,
                 (if resumed then [] else [mutex_lock]) @
                 [printf (producer_line v (count_rb rb + 1)), cond_signal not_empty,
                  mutex_unlock]))"
proof -
  from ok have "count_rb rb \<noteq> size_rb rb \<Longrightarrow> count_rb rb < size_rb rb"
    by (simp add: ring_ok_def)
  then show ?thesis
    by (simp add: producer_put_def Let_def rb_enqueue_ok [OF ok])
qed

lemma consumer_take_eq:
  assumes ok: "ring_ok rb"
  shows "consumer_take resumed g rb =
     Some (if count_rb rb \<noteq> 0
           then (take_success (data rb ! nat (head rb)),
                 rb\<lparr>head := (head rb + 1) mod size_rb rb,
                    count_rb := count_rb rb - 1,
                    consumed_total := consumed_total rb + 1\<rparr>,
                 (if resumed then [] else [mutex_lock]) @ [cond_signal not_full, mutex_unlock])
           else if shutdown rb \<noteq> 0
           then (shutdown_drained, rb, (if resumed then [] else [mutex_lock]) @ [mutex_unlock])
           else if g \<noteq> 0
           then (shutdown_drained, rb\<lparr>shutdown := 1\<rparr>,
                 (if resumed then [] else [mutex_lock]) @
                 [cond_broadcast not_empty, cond_broadcast not_full, mutex_unlock])
           else (take_blocked, rb, (if resumed then [] else [mutex_lock]) @ [cond_wait not_empty]))"
proof -
  show ?thesis
    by (simp add: consumer_take_def consumer_wait_def consumer_after_wait_def Let_def
        rb_dequeue_ok [OF ok])
qed


lemma enqueued_facts:
  fixes v :: int
  assumes "ring_inv rb" and "count_rb rb \<noteq> size_rb rb"
  defines "rb' \<equiv> rb\<lparr>data := (data rb)[nat (tail rb) := v],
                    tail := (tail rb + 1) mod size_rb rb,
                    count_rb := count_rb rb + 1,
                    produced_total := produced_total rb + 1\<rparr>"
  shows "ring_inv rb'" and "contents rb' = contents rb @ [v]"
proof -
  have ok: "ring_ok rb" using assms(1) by (simp add: ring_inv_def)
  then have lt: "count_rb rb < size_rb rb" using assms(2) by (simp add: ring_ok_def)
  have e: "rb_enqueue rb v = Some rb'"
    unfolding rb'_def by (rule rb_enqueue_ok [OF ok lt])
  show "ring_inv rb'" by (rule ring_inv_enqueue [OF assms(1) lt e])
  show "contents rb' = contents rb @ [v]" by (rule contents_enqueue [OF assms(1) lt e])
qed

lemma dequeued_facts:
  assumes "ring_inv rb" and "count_rb rb \<noteq> 0"
  defines "rb' \<equiv> rb\<lparr>head := (head rb + 1) mod size_rb rb,
                    count_rb := count_rb rb - 1,
                    consumed_total := consumed_total rb + 1\<rparr>"
  shows "ring_inv rb'" and "contents rb = data rb ! nat (head rb) # contents rb'"
proof -
  have ok: "ring_ok rb" using assms(1) by (simp add: ring_inv_def)
  then have lt: "0 < count_rb rb" using assms(2) by (simp add: ring_ok_def)
  have e: "rb_dequeue rb = Some (data rb ! nat (head rb), rb')"
    unfolding rb'_def by (rule rb_dequeue_ok [OF ok])
  show "ring_inv rb'" by (rule ring_inv_dequeue [OF assms(1) lt e])
  show "contents rb = data rb ! nat (head rb) # contents rb'"
    by (rule contents_dequeue [OF assms(1) lt e])
qed

lemma contents_empty: "count_rb rb = 0 \<Longrightarrow> contents rb = []"
  by (simp add: contents_def)

lemma step_post_sigint:
  assumes "system_inv s"
  shows "step_post s (handle_sigint s) []"
  using assms by (simp add: step_post_def handle_sigint_def system_inv_def)

lemma step_post_watcher:
  assumes "system_inv s" and "shutdown_watcher_step s = (s', es)"
  shows "step_post s s' es"
  using assms
  by (auto simp: step_post_def shutdown_watcher_step_def shutdown_watcher_trigger_def
      system_inv_def split: if_splits)

lemma step_post_main:
  assumes "system_inv s" and "main_step rc s = (s', es)"
  shows "step_post s s' es"
proof (cases "main_pc s")
  case create_watcher
  then show ?thesis
    using assms by (auto simp: step_post_def main_step_def system_inv_def split: if_splits)
next
  case create_producer
  then show ?thesis
    using assms
    by (auto simp: step_post_def main_step_def main_trigger_def system_inv_def split: if_splits)
next
  case alloc_consumers
  then show ?thesis
    using assms
    by (auto simp: step_post_def main_step_def main_trigger_def system_inv_def split: if_splits)
next
  case create_consumers
  then show ?thesis
    using assms
    by (auto simp: step_post_def main_step_def main_trigger_def system_inv_def split: if_splits)
next
  case join_watcher
  then show ?thesis
    using assms by (auto simp: step_post_def main_step_def system_inv_def split: if_splits)
next
  case join_producer_watcher
  then show ?thesis
    using assms by (auto simp: step_post_def main_step_def system_inv_def split: if_splits)
next
  case join_all
  then show ?thesis
    using assms
    by (auto simp: step_post_def main_step_def main_summary_def system_inv_def split: if_splits)
next
  case (returned st)
  then show ?thesis
    using assms by (auto simp: step_post_def main_step_def system_inv_def)
qed

lemma step_post_producer:
  assumes "system_inv s" and "producer_main_step s = Some (s', es)"
  shows "step_post s s' es"
proof -
  have inv: "ring_inv (buf s)" using assms(1) by (simp add: system_inv_def)
  have ok: "ring_ok (buf s)" using inv by (simp add: ring_inv_def)
  note put = producer_put_eq [OF ok]
  note enq = enqueued_facts [OF inv]
  show ?thesis
    using assms
    by (auto simp: step_post_def producer_main_step_def producer_main_put_def
        producer_main_trigger_def put enq int_add_def system_inv_def INT_MIN_def
        split: pc.splits if_splits)
qed


lemma stopped_in_update:
  assumes "stopped \<in> set (cs[i := x])" and "x \<noteq> stopped"
  shows "stopped \<in> set cs"
  using assms set_update_subset_insert [of cs i x] by auto

lemma step_post_consumer:
  assumes "system_inv s" and "consumer_main_step i s = Some (s', es)"
  shows "step_post s s' es"
proof (cases "length (consumers s) \<le> i \<or> consumers s ! i = stopped")
  case True
  then have "s' = s" "es = []"
    using assms(2) by (auto simp: consumer_main_step_def)
  then show ?thesis
    using assms(1) by (simp add: step_post_def)
next
  case False
  have inv: "ring_inv (buf s)" using assms(1) by (simp add: system_inv_def)
  have ok: "ring_ok (buf s)" using inv by (simp add: ring_inv_def)
  note take = consumer_take_eq [OF ok]
  note deq = dequeued_facts [OF inv]
  let ?rb = "buf s"
  consider (success) "count_rb ?rb \<noteq> 0"
    | (drained) "count_rb ?rb = 0" "shutdown ?rb \<noteq> 0"
    | (trigger) "count_rb ?rb = 0" "shutdown ?rb = 0" "g_stop_flag s \<noteq> 0"
    | (blocked) "count_rb ?rb = 0" "shutdown ?rb = 0" "g_stop_flag s = 0"
    by blast
  then show ?thesis
  proof cases
    case success
    have "stopped \<notin> set (consumers s)"
      using assms(1) success by (auto simp: system_inv_def)
    then have "stopped \<notin> set ((consumers s)[i := running])"
      using stopped_in_update [of "consumers s" i running] by auto
    then show ?thesis
      using assms False success deq
      by (auto simp: step_post_def consumer_main_step_def take system_inv_def)
  next
    case drained
    then show ?thesis
      using assms False
      by (auto simp: step_post_def consumer_main_step_def take system_inv_def)
  next
    case trigger
    then show ?thesis
      using assms False
      by (auto simp: step_post_def consumer_main_step_def take system_inv_def)
  next
    case blocked
    have "stopped \<notin> set (consumers s)"
      using assms(1) blocked by (auto simp: system_inv_def)
    then have "stopped \<notin> set ((consumers s)[i := waiting])"
      using stopped_in_update [of "consumers s" i waiting] by auto
    then show ?thesis
      using assms False blocked
      by (auto simp: step_post_def consumer_main_step_def take system_inv_def)
  qed
qed

lemma step_post_step:
  assumes "system_inv s" and "step p s = Some (s', es)"
  shows "step_post s s' es"
proof (cases p)
  case sigint
  then show ?thesis using assms step_post_sigint [of s] by auto
next
  case (main_thread rc)
  then show ?thesis using assms step_post_main [of s rc s' es] by auto
next
  case watcher_thread
  then show ?thesis using assms step_post_watcher [of s s' es] by auto
next
  case producer_thread
  then show ?thesis using assms step_post_producer [of s s' es] by auto
next
  case (consumer_thread i)
  then show ?thesis using assms step_post_consumer [of s i s' es] by auto
qed


lemma run_post_run:
  assumes "system_inv s" and "run ps s = Some (s', es)"
  shows "run_post s s' es"
  using assms
proof (induction ps arbitrary: s s' es)
  case Nil
  then show ?case by (simp add: run_post_def)
next
  case (Cons p ps)
  from Cons.prems(2) obtain s1 es1 es2
    where st: "step p s = Some (s1, es1)" and rest: "run ps s1 = Some (s', es2)"
      and es: "es = es1 @ es2"
    by (auto simp: bind_eq_Some_conv)
  have p1: "step_post s s1 es1" by (rule step_post_step [OF Cons.prems(1) st])
  then have inv1: "system_inv s1" by (simp add: step_post_def)
  have p2: "run_post s1 s' es2" by (rule Cons.IH [OF inv1 rest])
  have c: "consumed es @ contents (buf s') = contents (buf s) @ produced es"
  proof -
    have "consumed es @ contents (buf s') = consumed es1 @ (consumed es2 @ contents (buf s'))"
      by (simp add: es consumed_append)
    also have "\<dots> = consumed es1 @ contents (buf s1) @ produced es2"
      using p2 by (simp add: run_post_def)
    also have "\<dots> = contents (buf s) @ produced es1 @ produced es2"
      using p1 by (simp add: step_post_def)
    finally show ?thesis by (simp add: es produced_append)
  qed
  have v: "prod_value s \<le> prod_value s' \<and> produced es = [prod_value s..prod_value s' - 1]"
  proof -
    have le: "prod_value s1 \<le> prod_value s'"
      and p: "produced es2 = [prod_value s1..prod_value s' - 1]"
      using p2 by (simp_all add: run_post_def)
    from p1 consider "produced es1 = []" "prod_value s1 = prod_value s"
      | "produced es1 = [prod_value s]" "prod_value s1 = prod_value s + 1"
      by (auto simp: step_post_def)
    then show ?thesis
    proof cases
      case 1
      then show ?thesis using le p by (simp add: es produced_append)
    next
      case 2
      then have "[prod_value s..prod_value s' - 1] = prod_value s # produced es2"
        using le p by (simp add: upto_rec1)
      then show ?thesis using 2 le by (simp add: es produced_append)
    qed
  qed
  have inv': "system_inv s'" using p2 by (simp add: run_post_def)
  have pt: "produced_total (buf s') = produced_total (buf s) + of_nat (length (produced es))"
    using p1 p2 by (simp add: run_post_def step_post_def es produced_append)
  have ct: "consumed_total (buf s') = consumed_total (buf s) + of_nat (length (consumed es))"
    using p1 p2 by (simp add: run_post_def step_post_def es consumed_append)
  have sh1: "shutdown (buf s) \<noteq> 0 \<longrightarrow> shutdown (buf s1) \<noteq> 0 \<and> produced es1 = []"
    using p1 unfolding step_post_def by blast
  have sh2: "shutdown (buf s1) \<noteq> 0 \<longrightarrow> shutdown (buf s') \<noteq> 0 \<and> produced es2 = []"
    using p2 unfolding run_post_def by blast
  have sh: "shutdown (buf s) \<noteq> 0 \<longrightarrow> shutdown (buf s') \<noteq> 0 \<and> produced es = []"
    using sh1 sh2 by (simp add: es produced_append)
  have sz: "size_rb (buf s') = size_rb (buf s)"
    using p1 p2 by (simp add: run_post_def step_post_def)
  show ?case
    unfolding run_post_def using inv' c v pt ct sh sz by blast
qed

lemma step_defined:
  assumes "system_inv s" and "prod_value s < INT_MAX"
  shows "\<exists>s' es. step p s = Some (s', es)"
proof -
  have inv: "ring_inv (buf s)" and v: "1 \<le> prod_value s"
    using assms(1) by (simp_all add: system_inv_def)
  have ok: "ring_ok (buf s)" using inv by (simp add: ring_inv_def)
  note put = producer_put_eq [OF ok]
  note take = consumer_take_eq [OF ok]
  show ?thesis
  proof (cases p)
    case sigint
    then show ?thesis by simp
  next
    case (main_thread rc)
    then show ?thesis by (simp add: split_paired_all)
  next
    case watcher_thread
    then show ?thesis by (simp add: split_paired_all)
  next
    case producer_thread
    then show ?thesis
      using assms(2) v
      by (simp add: producer_main_step_def producer_main_put_def producer_main_trigger_def
          put int_add_def INT_MIN_def split: pc.splits)
  next
    case (consumer_thread i)
    then show ?thesis
      by (simp add: consumer_main_step_def take)
  qed
qed

lemma run_defined:
  assumes "system_inv s" and "prod_value s + int (length ps) \<le> INT_MAX"
  shows "\<exists>s' es. run ps s = Some (s', es)"
  using assms
proof (induction ps arbitrary: s)
  case Nil
  then show ?case by simp
next
  case (Cons p ps)
  from Cons.prems have "prod_value s < INT_MAX" by simp
  then obtain s1 es1 where st: "step p s = Some (s1, es1)"
    using step_defined [OF Cons.prems(1)] by blast
  have p1: "step_post s s1 es1" by (rule step_post_step [OF Cons.prems(1) st])
  then have "system_inv s1" and "prod_value s1 + int (length ps) \<le> INT_MAX"
    using Cons.prems(2) by (auto simp: step_post_def)
  then obtain s' es2 where "run ps s1 = Some (s', es2)"
    using Cons.IH by blast
  then show ?case using st by simp
qed

lemma main_start_inv:
  assumes "main_start N B T mem mtx_rc ne_rc nf_rc = Inr s" and "B \<le> INT_MAX"
  shows "system_inv s" and "contents (buf s) = []" and "prod_value s = 1"
    and "produced_total (buf s) = 0" and "consumed_total (buf s) = 0"
    and "size_rb (buf s) = B" and "consumers s = []" and "main_N s = N"
  using assms
  by (auto simp: main_start_def rb_init_def system_inv_def ring_inv_def ring_ok_def
      contents_def INT_MAX_def split: if_splits option.splits sum.splits)

lemma joined_consumers:
  assumes "system_inv s"
  shows "take (nat (main_N s)) (consumers s) = consumers s"
proof -
  from assms have "int (length (consumers s)) \<le> main_N s"
    by (simp add: system_inv_def)
  then have "length (consumers s) \<le> nat (main_N s)"
    by linarith
  then show ?thesis by simp
qed

lemma run_append:
  "run (ps @ qs) s =
     (case run ps s of
        None \<Rightarrow> None
      | Some (s1, es1) \<Rightarrow>
          (case run qs s1 of
             None \<Rightarrow> None
           | Some (s2, es2) \<Rightarrow> Some (s2, es1 @ es2)))"
  by (induction ps arbitrary: s) (auto split: option.splits bind_splits)

subsection \<open>The example run\<close>

lemmas eval_defs =
  step.simps run.simps handle_sigint_def main_step_def main_trigger_def main_summary_def
  shutdown_watcher_step_def shutdown_watcher_trigger_def
  producer_main_step_def producer_main_put_def producer_main_trigger_def producer_put_def
  consumer_main_step_def consumer_take_def consumer_wait_def consumer_after_wait_def
  rb_enqueue_def rb_dequeue_def array_read_def array_write_def int_add_def int_sub_def
  int_rem_def INT_MAX_def INT_MIN_def

lemma ex_start: "main_start 2 2 0 (Some (\<lambda>_. 0)) 0 0 0 = Inr ex_start"
  by (simp add: main_start_def rb_init_def ex_start_def numeral_2_eq_2)

lemma ex_fail_run: "run ex_fail_picks ex_start = Some (ex_fail_end, ex_fail_trace)"
  by (simp add: ex_fail_picks_def ex_start_def ex_fail_end_def ex_fail_trace_def eval_defs)

lemma ex_run1: "run ex_picks1 ex_start = Some (ex_mid, ex_trace1)"
  by (simp add: ex_picks1_def ex_start_def ex_mid_def ex_trace1_def eval_defs)

lemma ex_run2: "run ex_picks2 ex_mid = Some (ex_end, ex_trace2)"
  by (simp add: ex_picks2_def ex_mid_def ex_end_def ex_trace2_def eval_defs)

subsection \<open>Take\<close>

text \<open>
  C1. Take never discards buffered items across a shutdown. Once a consumer is past its
  wait loop (line 180), for every well-formed buffer: if \<^verbatim>\<open>shutdown\<close> is set and \<^verbatim>\<open>count\<close>
  is 0, it returns shutdown-drained with no value and leaves the buffer as it is; otherwise,
  also when \<^verbatim>\<open>shutdown\<close> is set and items remain, it reads the value at \<^verbatim>\<open>head\<close>, advances
  \<^verbatim>\<open>head\<close> to \<open>(head + 1) mod size\<close>, decrements \<^verbatim>\<open>count\<close>, increments
  \<^verbatim>\<open>consumed_total\<close>, signals \<^verbatim>\<open>not_full\<close> once and returns the value. Seen from the
  entry of the locked block, the same holds in both cases whatever the stop flag is; in
  the one remaining state, with no shutdown and an empty buffer, the consumer is in its
  wait loop: it sleeps on \<^verbatim>\<open>not_empty\<close> with the buffer unchanged or, when it sees the stop
  flag, sets \<^verbatim>\<open>shutdown\<close> itself, broadcasts on both conditions and returns
  shutdown-drained. So a consumer returns shutdown-drained, and exits, only with an empty
  buffer.
\<close>

theorem take_drains_before_exit:
  fixes rb :: "('l::len) ring_buffer_t"
  assumes "ring_ok rb"
  shows
    "consumer_after_wait rb =
       (if shutdown rb \<noteq> 0 \<and> count_rb rb = 0
        then Some (shutdown_drained, rb, [mutex_unlock])
        else Some (take_success (data rb ! nat (head rb)),
                   rb\<lparr>head := (head rb + 1) mod size_rb rb,
                      count_rb := count_rb rb - 1,
                      consumed_total := consumed_total rb + 1\<rparr>,
                   [cond_signal not_full, mutex_unlock])) \<and>
     (shutdown rb \<noteq> 0 \<and> count_rb rb = 0 \<longrightarrow>
        consumer_take resumed g rb =
          Some (shutdown_drained, rb,
                (if resumed then [] else [mutex_lock]) @ [mutex_unlock])) \<and>
     (count_rb rb \<noteq> 0 \<longrightarrow>
        consumer_take resumed g rb =
          Some (take_success (data rb ! nat (head rb)),
                rb\<lparr>head := (head rb + 1) mod size_rb rb,
                   count_rb := count_rb rb - 1,
                   consumed_total := consumed_total rb + 1\<rparr>,
                (if resumed then [] else [mutex_lock]) @ [cond_signal not_full, mutex_unlock])) \<and>
     (shutdown rb = 0 \<and> count_rb rb = 0 \<longrightarrow>
        consumer_take resumed g rb =
          (if g = 0
           then Some (take_blocked, rb,
                      (if resumed then [] else [mutex_lock]) @ [cond_wait not_empty])
           else Some (shutdown_drained, rb\<lparr>shutdown := 1\<rparr>,
                      (if resumed then [] else [mutex_lock]) @
                      [cond_broadcast not_empty, cond_broadcast not_full, mutex_unlock]))) \<and>
     (\<forall>rb' es. consumer_take resumed g rb = Some (shutdown_drained, rb', es) \<longrightarrow>
        count_rb rb = 0 \<and> count_rb rb' = 0 \<and> contents rb' = [])"
proof (intro conjI impI allI)
  show "consumer_after_wait rb =
       (if shutdown rb \<noteq> 0 \<and> count_rb rb = 0
        then Some (shutdown_drained, rb, [mutex_unlock])
        else Some (take_success (data rb ! nat (head rb)),
                   rb\<lparr>head := (head rb + 1) mod size_rb rb,
                      count_rb := count_rb rb - 1,
                      consumed_total := consumed_total rb + 1\<rparr>,
                   [cond_signal not_full, mutex_unlock]))"
    by (simp add: consumer_after_wait_def rb_dequeue_ok [OF assms])
next
  assume "shutdown rb \<noteq> 0 \<and> count_rb rb = 0"
  then show "consumer_take resumed g rb =
          Some (shutdown_drained, rb,
                (if resumed then [] else [mutex_lock]) @ [mutex_unlock])"
    by (simp add: consumer_take_eq [OF assms])
next
  assume "count_rb rb \<noteq> 0"
  then show "consumer_take resumed g rb =
          Some (take_success (data rb ! nat (head rb)),
                rb\<lparr>head := (head rb + 1) mod size_rb rb,
                   count_rb := count_rb rb - 1,
                   consumed_total := consumed_total rb + 1\<rparr>,
                (if resumed then [] else [mutex_lock]) @ [cond_signal not_full, mutex_unlock])"
    by (simp add: consumer_take_eq [OF assms])
next
  assume "shutdown rb = 0 \<and> count_rb rb = 0"
  then show "consumer_take resumed g rb =
          (if g = 0
           then Some (take_blocked, rb,
                      (if resumed then [] else [mutex_lock]) @ [cond_wait not_empty])
           else Some (shutdown_drained, rb\<lparr>shutdown := 1\<rparr>,
                      (if resumed then [] else [mutex_lock]) @
                      [cond_broadcast not_empty, cond_broadcast not_full, mutex_unlock]))"
    by (simp add: consumer_take_eq [OF assms])
next
  fix rb' es
  assume d: "consumer_take resumed g rb = Some (shutdown_drained, rb', es)"
  then show "count_rb rb = 0"
    by (simp add: consumer_take_eq [OF assms] split: if_splits)
  from d show "count_rb rb' = 0"
    by (auto simp: consumer_take_eq [OF assms] split: if_splits)
  then show "contents rb' = []"
    by (rule contents_empty)
qed


theorem take_drains_before_exit_witness:
  "ring_ok \<lparr>data = [7, 8], size_rb = 2, head = 1, tail = 0, count_rb = 1, shutdown = 1,
            produced_total = 3 :: 64 word, consumed_total = 2\<rparr> \<and>
   consumer_take False 1
     \<lparr>data = [7, 8], size_rb = 2, head = 1, tail = 0, count_rb = 1, shutdown = 1,
      produced_total = 3 :: 64 word, consumed_total = 2\<rparr> =
   Some (take_success 8,
         \<lparr>data = [7, 8], size_rb = 2, head = 0, tail = 0, count_rb = 0, shutdown = 1,
          produced_total = 3, consumed_total = 3\<rparr>,
         [mutex_lock, cond_signal not_full, mutex_unlock]) \<and>
   consumer_take False 1
     \<lparr>data = [7, 8], size_rb = 2, head = 0, tail = 0, count_rb = 0, shutdown = 1,
      produced_total = 3 :: 64 word, consumed_total = 3\<rparr> =
   Some (shutdown_drained,
         \<lparr>data = [7, 8], size_rb = 2, head = 0, tail = 0, count_rb = 0, shutdown = 1,
          produced_total = 3, consumed_total = 3\<rparr>,
         [mutex_lock, mutex_unlock])"
proof -
  let ?rb1 = "\<lparr>data = [7, 8], size_rb = 2, head = 1, tail = 0, count_rb = 1, shutdown = 1,
            produced_total = 3 :: 64 word, consumed_total = 2\<rparr>"
  let ?rb2 = "\<lparr>data = [7, 8], size_rb = 2, head = 0, tail = 0, count_rb = 0, shutdown = 1,
            produced_total = 3 :: 64 word, consumed_total = 3\<rparr>"
  have h1: "ring_ok ?rb1" and h2: "ring_ok ?rb2"
    by (simp_all add: ring_ok_def INT_MAX_def)
  show ?thesis
    using h1 take_drains_before_exit [OF h1, of False 1]
      take_drains_before_exit [OF h2, of False 1]
    by simp
qed

subsection \<open>Put\<close>

text \<open>
  C5. The postcondition of a successful Put. For every well-formed buffer with
  \<open>count < size\<close> and no shutdown, the locked block of the producer, entered at the lock or
  resumed after a wait, writes \<open>v\<close> into the slot at \<^verbatim>\<open>tail\<close>, advances \<^verbatim>\<open>tail\<close> to
  \<open>(tail + 1) mod size\<close>, increments \<^verbatim>\<open>count\<close> and \<^verbatim>\<open>produced_total\<close> by one, leaves every
  other field as it is, calls \<^verbatim>\<open>pthread_cond_signal\<close> on \<^verbatim>\<open>not_empty\<close> once and makes no
  broadcast, and returns success.
\<close>

theorem put_success_postcondition:
  fixes rb :: "('l::len) ring_buffer_t"
  assumes "ring_ok rb" and "count_rb rb < size_rb rb" and "shutdown rb = 0"
  shows
    "producer_put resumed rb v =
       Some (put_success,
             rb\<lparr>data := (data rb)[nat (tail rb) := v],
                tail := (tail rb + 1) mod size_rb rb,
                count_rb := count_rb rb + 1,
                produced_total := produced_total rb + 1\<rparr>,
             (if resumed then [] else [mutex_lock]) @
             [printf (producer_line v (count_rb rb + 1)), cond_signal not_empty,
              mutex_unlock])"
  using assms(2,3) by (simp add: producer_put_eq [OF assms(1)])

theorem put_success_postcondition_witness:
  "ring_ok \<lparr>data = [7, 0], size_rb = 2, head = 0, tail = 1, count_rb = 1, shutdown = 0,
            produced_total = 1 :: 64 word, consumed_total = 0\<rparr> \<and>
   producer_put False
     \<lparr>data = [7, 0], size_rb = 2, head = 0, tail = 1, count_rb = 1, shutdown = 0,
      produced_total = 1 :: 64 word, consumed_total = 0\<rparr> 9 =
   Some (put_success,
         \<lparr>data = [7, 9], size_rb = 2, head = 0, tail = 0, count_rb = 2, shutdown = 0,
          produced_total = 2, consumed_total = 0\<rparr>,
         [mutex_lock, printf (producer_line 9 2), cond_signal not_empty, mutex_unlock])"
proof -
  let ?rb = "\<lparr>data = [7, 0], size_rb = 2, head = 0, tail = 1, count_rb = 1, shutdown = 0,
            produced_total = 1 :: 64 word, consumed_total = 0\<rparr>"
  have h: "ring_ok ?rb"
    by (simp add: ring_ok_def INT_MAX_def)
  show ?thesis
    using h put_success_postcondition [OF h, of False 9] by simp
qed

text \<open>
  C2. A rejected Put changes nothing. For every buffer with \<^verbatim>\<open>shutdown\<close> set, the locked
  block of the producer returns shutdown-rejected and the buffer it leaves is the buffer it
  found, field by field, whether it sees the flag on entry (line 142) or after a wait
  (line 147). After a shutdown Put always fails: in every run of the program, from a state
  with \<^verbatim>\<open>shutdown\<close> set on, the flag stays set and no value is put.
\<close>

theorem put_rejected_after_shutdown:
  fixes rb :: "('l::len) ring_buffer_t" and s0 s1 s2 :: "('l::len) system"
  shows
    "(shutdown rb \<noteq> 0 \<longrightarrow>
        producer_put False rb v = Some (shutdown_rejected, rb, [mutex_lock, mutex_unlock]) \<and>
        producer_put True rb v = Some (shutdown_rejected, rb, [mutex_unlock])) \<and>
     (main_start N B T mem mtx_rc ne_rc nf_rc = Inr s0 \<and> B \<le> INT_MAX \<and>
      run ps s0 = Some (s1, es1) \<and> shutdown (buf s1) \<noteq> 0 \<and> run qs s1 = Some (s2, es2) \<longrightarrow>
        shutdown (buf s2) \<noteq> 0 \<and> produced es2 = [])"
proof (intro conjI impI)
  assume "shutdown rb \<noteq> 0"
  then show "producer_put False rb v = Some (shutdown_rejected, rb, [mutex_lock, mutex_unlock])"
    and "producer_put True rb v = Some (shutdown_rejected, rb, [mutex_unlock])"
    by (simp_all add: producer_put_def)
next
  assume a: "main_start N B T mem mtx_rc ne_rc nf_rc = Inr s0 \<and> B \<le> INT_MAX \<and>
      run ps s0 = Some (s1, es1) \<and> shutdown (buf s1) \<noteq> 0 \<and> run qs s1 = Some (s2, es2)"
  then have "system_inv s0" using main_start_inv(1) by blast
  with a have "run_post s0 s1 es1" using run_post_run by blast
  then have "system_inv s1" by (simp add: run_post_def)
  with a have "run_post s1 s2 es2" using run_post_run by blast
  with a show "shutdown (buf s2) \<noteq> 0" and "produced es2 = []"
    unfolding run_post_def by blast+
qed


theorem put_rejected_after_shutdown_witness:
  "shutdown (buf ex_mid) \<noteq> 0 \<and>
   producer_put False (buf ex_mid) 2 =
     Some (shutdown_rejected, buf ex_mid, [mutex_lock, mutex_unlock]) \<and>
   producer_put True (buf ex_mid) 2 = Some (shutdown_rejected, buf ex_mid, [mutex_unlock]) \<and>
   main_start 2 2 0 (Some (\<lambda>_. 0)) 0 0 0 = Inr ex_start \<and> 2 \<le> INT_MAX \<and>
   run ex_picks1 ex_start = Some (ex_mid, ex_trace1) \<and>
   run ex_picks2 ex_mid = Some (ex_end, ex_trace2) \<and>
   shutdown (buf ex_end) \<noteq> 0 \<and> produced ex_trace2 = []"
proof -
  have h: "shutdown (buf ex_mid) \<noteq> 0" and b: "(2::int) \<le> INT_MAX"
    by (simp_all add: ex_mid_def INT_MAX_def)
  show ?thesis
    using h b ex_start ex_run1 ex_run2
      put_rejected_after_shutdown [where rb = "buf ex_mid" and v = 2 and N = 2 and B = 2
        and T = 0 and mem = "Some (\<lambda>_. 0)" and mtx_rc = 0 and ne_rc = 0 and nf_rc = 0
        and ?s0.0 = ex_start and ps = ex_picks1 and ?s1.0 = ex_mid and ?es1.0 = ex_trace1
        and qs = ex_picks2 and ?s2.0 = ex_end and ?es2.0 = ex_trace2]
    by simp
qed

subsection \<open>Invariants of the reachable states\<close>

text \<open>
  C3. The ring invariant. In every state the program reaches from its start (\<^verbatim>\<open>main\<close> with
  valid arguments and a buffer size that is an \<^verbatim>\<open>int\<close>) by any sequence of steps of
  \<^verbatim>\<open>main\<close>, the producer, the consumers, the watcher and the signal handler, whatever
  the calls of \<^verbatim>\<open>main\<close> return, so by any sequence of puts, takes and shutdown triggers: \<open>0 \<le> count \<le> size\<close>, \<^verbatim>\<open>head\<close> and \<^verbatim>\<open>tail\<close> lie in
  \<open>[0, size)\<close>, and \<open>tail = (head + count) mod size\<close>; \<^verbatim>\<open>size\<close> is the size given to
  \<^verbatim>\<open>main\<close>.
\<close>

theorem ring_invariant:
  fixes s0 s :: "('l::len) system"
  assumes "main_start N B T mem mtx_rc ne_rc nf_rc = Inr s0" and "B \<le> INT_MAX"
    and "run ps s0 = Some (s, es)"
  shows
    "0 \<le> count_rb (buf s) \<and> count_rb (buf s) \<le> size_rb (buf s) \<and>
     0 \<le> head (buf s) \<and> head (buf s) < size_rb (buf s) \<and>
     0 \<le> tail (buf s) \<and> tail (buf s) < size_rb (buf s) \<and>
     tail (buf s) = (head (buf s) + count_rb (buf s)) mod size_rb (buf s) \<and>
     size_rb (buf s) = B"
proof -
  have i0: "system_inv s0" and z0: "size_rb (buf s0) = B"
    using main_start_inv [OF assms(1,2)] by simp_all
  have post: "run_post s0 s es"
    by (rule run_post_run [OF i0 assms(3)])
  then have "ring_inv (buf s)" and "size_rb (buf s) = size_rb (buf s0)"
    by (simp_all add: run_post_def system_inv_def)
  then show ?thesis
    using z0 by (simp add: ring_inv_def ring_ok_def)
qed

theorem ring_invariant_witness:
  "main_start 2 2 0 (Some (\<lambda>_. 0)) 0 0 0 = Inr ex_start \<and> 2 \<le> INT_MAX \<and>
   run ex_picks1 ex_start = Some (ex_mid, ex_trace1) \<and>
   0 \<le> count_rb (buf ex_mid) \<and> count_rb (buf ex_mid) \<le> size_rb (buf ex_mid) \<and>
   0 \<le> head (buf ex_mid) \<and> head (buf ex_mid) < size_rb (buf ex_mid) \<and>
   0 \<le> tail (buf ex_mid) \<and> tail (buf ex_mid) < size_rb (buf ex_mid) \<and>
   tail (buf ex_mid) = (head (buf ex_mid) + count_rb (buf ex_mid)) mod size_rb (buf ex_mid) \<and>
   size_rb (buf ex_mid) = 2"
proof -
  have b: "(2::int) \<le> INT_MAX"
    by (simp add: INT_MAX_def)
  show ?thesis
    using b ex_start ex_run1 ring_invariant [OF ex_start b ex_run1] by simp
qed

text \<open>
  C4. The counter invariant. In every state the program reaches,
  \<open>produced_total - consumed_total = count\<close> in the arithmetic of \<^verbatim>\<open>unsigned long\<close>, and
  as numbers when \<^verbatim>\<open>unsigned long\<close> has at least 32 bits; \<^verbatim>\<open>produced_total\<close> is the number
  of successful puts of the run and \<^verbatim>\<open>consumed_total\<close> the number of successful takes.
  Step by step: the locked block of the producer adds one to \<^verbatim>\<open>produced_total\<close> exactly
  when it returns success and never touches \<^verbatim>\<open>consumed_total\<close>; the locked block of a
  consumer adds one to \<^verbatim>\<open>consumed_total\<close> exactly when it returns a value and never touches
  \<^verbatim>\<open>produced_total\<close>; a shutdown trigger touches neither.
\<close>

theorem counter_invariant:
  fixes s0 s :: "('l::len) system" and rb :: "('l::len) ring_buffer_t"
  shows
    "(main_start N B T mem mtx_rc ne_rc nf_rc = Inr s0 \<and> B \<le> INT_MAX \<and>
      run ps s0 = Some (s, es) \<longrightarrow>
        produced_total (buf s) - consumed_total (buf s) = word_of_int (count_rb (buf s)) \<and>
        (32 \<le> LENGTH('l) \<longrightarrow>
           unat (produced_total (buf s) - consumed_total (buf s)) = nat (count_rb (buf s))) \<and>
        produced_total (buf s) = of_nat (length (produced es)) \<and>
        consumed_total (buf s) = of_nat (length (consumed es))) \<and>
     (\<forall>r rb' es'. producer_put resumed rb v = Some (r, rb', es') \<longrightarrow>
        produced_total rb' = (if r = put_success then produced_total rb + 1 else produced_total rb) \<and>
        consumed_total rb' = consumed_total rb) \<and>
     (\<forall>r rb' es'. consumer_take resumed g rb = Some (r, rb', es') \<longrightarrow>
        consumed_total rb' =
          (case r of take_success x \<Rightarrow> consumed_total rb + 1 | _ \<Rightarrow> consumed_total rb) \<and>
        produced_total rb' = produced_total rb) \<and>
     produced_total (fst (shutdown_watcher_trigger rb)) = produced_total rb \<and>
     consumed_total (fst (shutdown_watcher_trigger rb)) = consumed_total rb \<and>
     produced_total (fst (producer_main_trigger rb)) = produced_total rb \<and>
     consumed_total (fst (producer_main_trigger rb)) = consumed_total rb \<and>
     produced_total (fst (main_trigger rb)) = produced_total rb \<and>
     consumed_total (fst (main_trigger rb)) = consumed_total rb"
proof (intro conjI impI allI)
  assume a: "main_start N B T mem mtx_rc ne_rc nf_rc = Inr s0 \<and> B \<le> INT_MAX \<and>
      run ps s0 = Some (s, es)"
  then have i0: "system_inv s0" and p0: "produced_total (buf s0) = 0"
    and c0: "consumed_total (buf s0) = 0" and z0: "size_rb (buf s0) = B"
    using main_start_inv [of N B T mem mtx_rc ne_rc nf_rc s0] by simp_all
  have post: "run_post s0 s es"
    using run_post_run [OF i0] a by blast
  then have inv: "system_inv s" by (simp add: run_post_def)
  then show d: "produced_total (buf s) - consumed_total (buf s) = word_of_int (count_rb (buf s))"
    by (simp add: system_inv_def)
  show "produced_total (buf s) = of_nat (length (produced es))"
    using post p0 by (simp add: run_post_def)
  show "consumed_total (buf s) = of_nat (length (consumed es))"
    using post c0 by (simp add: run_post_def)
  assume l: "32 \<le> LENGTH('l)"
  have "size_rb (buf s) = B" using post z0 by (simp add: run_post_def)
  with inv a have c: "0 \<le> count_rb (buf s)" "count_rb (buf s) \<le> INT_MAX"
    by (simp_all add: system_inv_def ring_inv_def ring_ok_def)
  have "(2::int) ^ 32 \<le> 2 ^ LENGTH('l)"
    using l by (rule power_increasing) simp
  with c have "count_rb (buf s) < 2 ^ LENGTH('l)"
    by (simp add: INT_MAX_def)
  with c have "uint (word_of_int (count_rb (buf s)) :: 'l word) = count_rb (buf s)"
    by (simp add: uint_word_of_int)
  then show "unat (produced_total (buf s) - consumed_total (buf s)) = nat (count_rb (buf s))"
    by (simp add: d unat_eq_nat_uint)
next
  fix r rb' es'
  assume "producer_put resumed rb v = Some (r, rb', es')"
  then show "produced_total rb' =
      (if r = put_success then produced_total rb + 1 else produced_total rb)"
    and "consumed_total rb' = consumed_total rb"
    by (auto simp: producer_put_def rb_enqueue_def Let_def split: if_splits bind_splits)
next
  fix r rb' es'
  assume "consumer_take resumed g rb = Some (r, rb', es')"
  then show "consumed_total rb' =
      (case r of take_success x \<Rightarrow> consumed_total rb + 1 | _ \<Rightarrow> consumed_total rb)"
    and "produced_total rb' = produced_total rb"
    by (auto simp: consumer_take_def consumer_wait_def consumer_after_wait_def rb_dequeue_def
        Let_def split: if_splits bind_splits)
qed (simp_all add: shutdown_watcher_trigger_def producer_main_trigger_def main_trigger_def)

theorem counter_invariant_witness:
  "main_start 2 2 0 (Some (\<lambda>_. 0)) 0 0 0 = Inr ex_start \<and> 2 \<le> INT_MAX \<and>
   run ex_picks1 ex_start = Some (ex_mid, ex_trace1) \<and>
   32 \<le> LENGTH(64) \<and>
   producer_put False (buf ex_start) 1 =
     Some (put_success, buf ex_mid\<lparr>shutdown := 0\<rparr>,
           [mutex_lock, printf (producer_line 1 1), cond_signal not_empty, mutex_unlock]) \<and>
   consumer_take False 0 (buf ex_start) =
     Some (take_blocked, buf ex_start, [mutex_lock, cond_wait not_empty]) \<and>
   produced_total (buf ex_mid) - consumed_total (buf ex_mid) = word_of_int (count_rb (buf ex_mid)) \<and>
   unat (produced_total (buf ex_mid) - consumed_total (buf ex_mid)) = nat (count_rb (buf ex_mid)) \<and>
   produced_total (buf ex_mid) = of_nat (length (produced ex_trace1)) \<and>
   consumed_total (buf ex_mid) = of_nat (length (consumed ex_trace1)) \<and>
   produced_total (buf ex_mid\<lparr>shutdown := 0\<rparr>) = produced_total (buf ex_start) + 1 \<and>
   consumed_total (buf ex_mid\<lparr>shutdown := 0\<rparr>) = consumed_total (buf ex_start)"
proof -
  have b: "(2::int) \<le> INT_MAX"
    by (simp add: INT_MAX_def)
  have l: "32 \<le> LENGTH(64)"
    by simp
  have p: "producer_put False (buf ex_start) 1 =
     Some (put_success, buf ex_mid\<lparr>shutdown := 0\<rparr>,
           [mutex_lock, printf (producer_line 1 1), cond_signal not_empty, mutex_unlock])"
    by (simp add: ex_start_def ex_mid_def eval_defs)
  have t: "consumer_take False 0 (buf ex_start) =
     Some (take_blocked, buf ex_start, [mutex_lock, cond_wait not_empty])"
    by (simp add: ex_start_def eval_defs)
  note ci = counter_invariant [where N = 2 and B = 2 and T = 0 and mem = "Some (\<lambda>_. 0)"
        and mtx_rc = 0 and ne_rc = 0 and nf_rc = 0 and ?s0.0 = ex_start and ps = ex_picks1
        and s = ex_mid and es = ex_trace1 and resumed = False and rb = "buf ex_start"
        and v = 1 and g = 0]
  from ci ex_start b ex_run1 l have sys:
    "produced_total (buf ex_mid) - consumed_total (buf ex_mid) = word_of_int (count_rb (buf ex_mid)) \<and>
     unat (produced_total (buf ex_mid) - consumed_total (buf ex_mid)) = nat (count_rb (buf ex_mid)) \<and>
     produced_total (buf ex_mid) = of_nat (length (produced ex_trace1)) \<and>
     consumed_total (buf ex_mid) = of_nat (length (consumed ex_trace1))"
    by blast
  from ci p have put:
    "produced_total (buf ex_mid\<lparr>shutdown := 0\<rparr>) = produced_total (buf ex_start) + 1 \<and>
     consumed_total (buf ex_mid\<lparr>shutdown := 0\<rparr>) = consumed_total (buf ex_start)"
    by fastforce
  show ?thesis
    using ex_start b ex_run1 l p t sys put by blast
qed

subsection \<open>No item is lost or duplicated\<close>

text \<open>
  C7. In every finite run of the program, with the puts and takes of all threads
  interleaved in any order, the values taken so far followed by the items still in the
  buffer are the values put so far, in the same order. So the multiset of the values
  taken and of the items still buffered is the multiset of the values put; once the buffer
  is drained to empty the multiset of the values taken equals the multiset of the values
  put; a consumer has only stopped when the shutdown is set and the buffer is empty; and
  when \<^verbatim>\<open>main\<close> gets past its joins with a consumer among the threads joined, so that the
  run has terminated through the shutdown and the consumers have drained the buffer, the
  two multisets are equal and \<^verbatim>\<open>count\<close> is 0.
\<close>

theorem no_lost_or_duplicated_items:
  fixes s0 s :: "('l::len) system"
  assumes "main_start N B T mem mtx_rc ne_rc nf_rc = Inr s0" and "B \<le> INT_MAX"
    and "run ps s0 = Some (s, es)"
  shows
    "consumed es @ contents (buf s) = produced es \<and>
     mset (consumed es) + mset (contents (buf s)) = mset (produced es) \<and>
     (count_rb (buf s) = 0 \<longrightarrow> mset (consumed es) = mset (produced es)) \<and>
     (stopped \<in> set (consumers s) \<longrightarrow>
        shutdown (buf s) \<noteq> 0 \<and> count_rb (buf s) = 0 \<and>
        mset (consumed es) = mset (produced es)) \<and>
     (main_summary s \<noteq> sleeps \<and> consumers s \<noteq> [] \<longrightarrow>
        shutdown (buf s) \<noteq> 0 \<and> count_rb (buf s) = 0 \<and>
        mset (consumed es) = mset (produced es))"
proof -
  have i0: "system_inv s0" and k0: "contents (buf s0) = []"
    using main_start_inv [OF assms(1,2)] by simp_all
  have post: "run_post s0 s es"
    by (rule run_post_run [OF i0 assms(3)])
  then have fifo: "consumed es @ contents (buf s) = produced es"
    using k0 by (simp add: run_post_def)
  then have "mset (consumed es @ contents (buf s)) = mset (produced es)"
    by simp
  then have ms: "mset (consumed es) + mset (contents (buf s)) = mset (produced es)"
    by simp
  have empty: "mset (consumed es) = mset (produced es)" if "count_rb (buf s) = 0"
    using ms contents_empty [OF that] by simp
  have inv: "system_inv s"
    using post by (simp add: run_post_def)
  have st: "shutdown (buf s) \<noteq> 0 \<and> count_rb (buf s) = 0" if "stopped \<in> set (consumers s)"
    using inv that by (simp add: system_inv_def)
  have joined: "stopped \<in> set (consumers s)"
    if "main_summary s \<noteq> sleeps \<and> consumers s \<noteq> []"
  proof -
    from that have "\<forall>c \<in> set (take (nat (main_N s)) (consumers s)). c = stopped"
      by (simp add: main_summary_def split: if_splits)
    then have all: "\<forall>c \<in> set (consumers s). c = stopped"
      by (simp add: joined_consumers [OF inv])
    from that obtain c where "c \<in> set (consumers s)" by (cases "consumers s") auto
    with all show ?thesis by auto
  qed
  show ?thesis
    using fifo ms empty st joined by blast
qed

theorem no_lost_or_duplicated_items_witness:
  "main_start 2 2 0 (Some (\<lambda>_. 0)) 0 0 0 = Inr ex_start \<and> 2 \<le> INT_MAX \<and>
   run (ex_picks1 @ ex_picks2) ex_start = Some (ex_end, ex_trace1 @ ex_trace2) \<and>
   count_rb (buf ex_end) = 0 \<and> stopped \<in> set (consumers ex_end) \<and>
   main_summary ex_end \<noteq> sleeps \<and> consumers ex_end \<noteq> [] \<and>
   shutdown (buf ex_end) \<noteq> 0 \<and>
   produced (ex_trace1 @ ex_trace2) = [1] \<and> consumed (ex_trace1 @ ex_trace2) = [1] \<and>
   mset (consumed (ex_trace1 @ ex_trace2)) = mset (produced (ex_trace1 @ ex_trace2))"
proof -
  have b: "(2::int) \<le> INT_MAX"
    by (simp add: INT_MAX_def)
  have r: "run (ex_picks1 @ ex_picks2) ex_start = Some (ex_end, ex_trace1 @ ex_trace2)"
    using ex_run1 ex_run2 by (simp add: run_append)
  have e: "count_rb (buf ex_end) = 0" "stopped \<in> set (consumers ex_end)"
    "main_summary ex_end \<noteq> sleeps" "consumers ex_end \<noteq> []"
    "produced (ex_trace1 @ ex_trace2) = [1]" "consumed (ex_trace1 @ ex_trace2) = [1]"
    by (simp_all add: ex_end_def main_summary_def ex_trace1_def ex_trace2_def)
  show ?thesis
    using b r e ex_start no_lost_or_duplicated_items [OF ex_start b r] by simp
qed

subsection \<open>Memory safety of the ring operations\<close>

text \<open>
  C10. The array accesses of the ring operations stay inside the block. With \<open>size > 0\<close>,
  \<^verbatim>\<open>data\<close> a block of \<^verbatim>\<open>size\<close> ints and \<^verbatim>\<open>head\<close> and \<^verbatim>\<open>tail\<close> in \<open>[0, size)\<close>, the write
  \<^verbatim>\<open>data[tail] = value\<close> of \<^verbatim>\<open>rb_enqueue\<close> and the read \<^verbatim>\<open>data[head]\<close> of \<^verbatim>\<open>rb_dequeue\<close> are
  defined. On a well-formed buffer all of \<^verbatim>\<open>rb_enqueue\<close> is defined when \<open>count < size\<close>,
  and all of \<^verbatim>\<open>rb_dequeue\<close> when \<open>count > 0\<close>. Every state the program reaches has a
  well-formed buffer, and every run of fewer than \<^verbatim>\<open>INT_MAX\<close> steps is defined throughout.
\<close>

theorem ring_accesses_in_bounds:
  fixes rb :: "('l::len) ring_buffer_t" and s0 s :: "('l::len) system"
  shows
    "(0 < size_rb rb \<and> int (length (data rb)) = size_rb rb \<and>
      0 \<le> head rb \<and> head rb < size_rb rb \<and> 0 \<le> tail rb \<and> tail rb < size_rb rb \<longrightarrow>
        array_write (data rb) (tail rb) v = Some ((data rb)[nat (tail rb) := v]) \<and>
        array_read (data rb) (head rb) = Some (data rb ! nat (head rb))) \<and>
     (ring_ok rb \<and> count_rb rb < size_rb rb \<longrightarrow> (\<exists>rb'. rb_enqueue rb v = Some rb')) \<and>
     (ring_ok rb \<and> 0 < count_rb rb \<longrightarrow> (\<exists>out rb'. rb_dequeue rb = Some (out, rb'))) \<and>
     (main_start N B T mem mtx_rc ne_rc nf_rc = Inr s0 \<and> B \<le> INT_MAX \<and>
      run ps s0 = Some (s, es) \<longrightarrow> ring_ok (buf s)) \<and>
     (main_start N B T mem mtx_rc ne_rc nf_rc = Inr s0 \<and> B \<le> INT_MAX \<and>
      int (length ps) < INT_MAX \<longrightarrow> (\<exists>s' es'. run ps s0 = Some (s', es')))"
proof (intro conjI impI)
  assume "0 < size_rb rb \<and> int (length (data rb)) = size_rb rb \<and>
      0 \<le> head rb \<and> head rb < size_rb rb \<and> 0 \<le> tail rb \<and> tail rb < size_rb rb"
  then show "array_write (data rb) (tail rb) v = Some ((data rb)[nat (tail rb) := v])"
    and "array_read (data rb) (head rb) = Some (data rb ! nat (head rb))"
    by (simp_all add: array_write_def array_read_def)
next
  assume "ring_ok rb \<and> count_rb rb < size_rb rb"
  then show "\<exists>rb'. rb_enqueue rb v = Some rb'"
    using rb_enqueue_ok [of rb v] by simp
next
  assume "ring_ok rb \<and> 0 < count_rb rb"
  then show "\<exists>out rb'. rb_dequeue rb = Some (out, rb')"
    using rb_dequeue_ok [of rb] by simp
next
  assume a: "main_start N B T mem mtx_rc ne_rc nf_rc = Inr s0 \<and> B \<le> INT_MAX \<and>
      run ps s0 = Some (s, es)"
  then have "system_inv s0"
    using main_start_inv(1) by blast
  with a have "run_post s0 s es"
    using run_post_run by blast
  then show "ring_ok (buf s)"
    by (simp add: run_post_def system_inv_def ring_inv_def)
next
  assume a: "main_start N B T mem mtx_rc ne_rc nf_rc = Inr s0 \<and> B \<le> INT_MAX \<and>
      int (length ps) < INT_MAX"
  then have "system_inv s0" and "prod_value s0 = 1"
    using main_start_inv [of N B T mem mtx_rc ne_rc nf_rc s0] by simp_all
  then show "\<exists>s' es'. run ps s0 = Some (s', es')"
    using a run_defined [of s0 ps] by simp
qed

theorem ring_accesses_in_bounds_witness:
  "0 < size_rb (buf ex_mid) \<and> int (length (data (buf ex_mid))) = size_rb (buf ex_mid) \<and>
   0 \<le> head (buf ex_mid) \<and> head (buf ex_mid) < size_rb (buf ex_mid) \<and>
   0 \<le> tail (buf ex_mid) \<and> tail (buf ex_mid) < size_rb (buf ex_mid) \<and>
   ring_ok (buf ex_mid) \<and> count_rb (buf ex_mid) < size_rb (buf ex_mid) \<and>
   0 < count_rb (buf ex_mid) \<and>
   main_start 2 2 0 (Some (\<lambda>_. 0)) 0 0 0 = Inr ex_start \<and> 2 \<le> INT_MAX \<and>
   run ex_picks1 ex_start = Some (ex_mid, ex_trace1) \<and> int (length ex_picks1) < INT_MAX \<and>
   array_write (data (buf ex_mid)) (tail (buf ex_mid)) 5 = Some [1, 5] \<and>
   array_read (data (buf ex_mid)) (head (buf ex_mid)) = Some 1 \<and>
   rb_enqueue (buf ex_mid) 5 \<noteq> None \<and> rb_dequeue (buf ex_mid) \<noteq> None"
proof -
  have b: "(2::int) \<le> INT_MAX" and l: "int (length ex_picks1) < INT_MAX"
    by (simp_all add: INT_MAX_def ex_picks1_def)
  have h: "0 < size_rb (buf ex_mid) \<and> int (length (data (buf ex_mid))) = size_rb (buf ex_mid) \<and>
      0 \<le> head (buf ex_mid) \<and> head (buf ex_mid) < size_rb (buf ex_mid) \<and>
      0 \<le> tail (buf ex_mid) \<and> tail (buf ex_mid) < size_rb (buf ex_mid)"
    and ok: "ring_ok (buf ex_mid)" and c: "count_rb (buf ex_mid) < size_rb (buf ex_mid)"
      "0 < count_rb (buf ex_mid)"
    by (simp_all add: ex_mid_def ring_ok_def INT_MAX_def)
  note t = ring_accesses_in_bounds [where rb = "buf ex_mid" and v = 5 and N = 2 and B = 2
      and T = 0 and mem = "Some (\<lambda>_. 0)" and mtx_rc = 0 and ne_rc = 0 and nf_rc = 0
      and ?s0.0 = ex_start and ps = ex_picks1 and s = ex_mid and es = ex_trace1]
  from t h have acc: "array_write (data (buf ex_mid)) (tail (buf ex_mid)) 5 =
        Some ((data (buf ex_mid))[nat (tail (buf ex_mid)) := 5]) \<and>
      array_read (data (buf ex_mid)) (head (buf ex_mid)) =
        Some (data (buf ex_mid) ! nat (head (buf ex_mid)))"
    by blast
  then have acc': "array_write (data (buf ex_mid)) (tail (buf ex_mid)) 5 = Some [1, 5] \<and>
      array_read (data (buf ex_mid)) (head (buf ex_mid)) = Some 1"
    by (simp add: ex_mid_def)
  from t ok c have d: "rb_enqueue (buf ex_mid) 5 \<noteq> None \<and> rb_dequeue (buf ex_mid) \<noteq> None"
    by fastforce
  show ?thesis
    using h ok c b l ex_start ex_run1 acc' d by blast
qed

subsection \<open>Triggering the shutdown\<close>

text \<open>
  C6. Triggering the shutdown is idempotent. The locked block of the watcher sets
  \<^verbatim>\<open>shutdown\<close> and broadcasts on both conditions when the flag is not set, and only takes
  and releases the lock when it is set. The block of the producer sets the flag to 1 and
  broadcasts whatever the flag is: on a buffer whose flag is 1 already it changes no field
  (it only repeats the broadcasts). A consumer triggers the shutdown only from its wait
  loop, where the flag is not set; its next locked block finds the buffer empty and shut
  down and changes nothing. Whichever of the paths runs after another, the buffer after
  both is the buffer after the first. In every state the program reaches with the
  shutdown set, the flag is 1 and both blocks leave the buffer exactly as it is. The block
  of \<^verbatim>\<open>main\<close>, on the paths where it could not create a thread, is the block of the
  producer.
\<close>

theorem trigger_shutdown_idempotent:
  fixes rb :: "('l::len) ring_buffer_t" and s0 s :: "('l::len) system"
  shows
    "(shutdown rb = 0 \<longrightarrow>
        shutdown_watcher_trigger rb =
          (rb\<lparr>shutdown := 1\<rparr>,
           [mutex_lock, printf signal_line, cond_broadcast not_empty, cond_broadcast not_full,
            mutex_unlock])) \<and>
     (shutdown rb \<noteq> 0 \<longrightarrow> shutdown_watcher_trigger rb = (rb, [mutex_lock, mutex_unlock])) \<and>
     producer_main_trigger rb =
       (rb\<lparr>shutdown := 1\<rparr>,
        [mutex_lock, cond_broadcast not_empty, cond_broadcast not_full, mutex_unlock]) \<and>
     (shutdown rb = 1 \<longrightarrow> fst (producer_main_trigger rb) = rb) \<and>
     (ring_ok rb \<and> count_rb rb = 0 \<and> shutdown rb = 0 \<and> g \<noteq> 0 \<longrightarrow>
        consumer_take resumed g rb =
          Some (shutdown_drained, rb\<lparr>shutdown := 1\<rparr>,
                (if resumed then [] else [mutex_lock]) @
                [cond_broadcast not_empty, cond_broadcast not_full, mutex_unlock]) \<and>
        consumer_take False g (rb\<lparr>shutdown := 1\<rparr>) =
          Some (shutdown_drained, rb\<lparr>shutdown := 1\<rparr>, [mutex_lock, mutex_unlock])) \<and>
     fst (shutdown_watcher_trigger (fst (shutdown_watcher_trigger rb))) =
       fst (shutdown_watcher_trigger rb) \<and>
     fst (producer_main_trigger (fst (producer_main_trigger rb))) =
       fst (producer_main_trigger rb) \<and>
     fst (shutdown_watcher_trigger (fst (producer_main_trigger rb))) =
       fst (producer_main_trigger rb) \<and>
     (shutdown rb = 0 \<or> shutdown rb = 1 \<longrightarrow>
        fst (producer_main_trigger (fst (shutdown_watcher_trigger rb))) =
          fst (shutdown_watcher_trigger rb)) \<and>
     (main_start N B T mem mtx_rc ne_rc nf_rc = Inr s0 \<and> B \<le> INT_MAX \<and>
      run ps s0 = Some (s, es) \<and> shutdown (buf s) \<noteq> 0 \<longrightarrow>
        fst (shutdown_watcher_trigger (buf s)) = buf s \<and>
        fst (producer_main_trigger (buf s)) = buf s) \<and>
     main_trigger rb = producer_main_trigger rb"
proof (intro conjI impI)
  assume a: "main_start N B T mem mtx_rc ne_rc nf_rc = Inr s0 \<and> B \<le> INT_MAX \<and>
      run ps s0 = Some (s, es) \<and> shutdown (buf s) \<noteq> 0"
  then have "system_inv s0"
    using main_start_inv(1) by blast
  with a have "run_post s0 s es"
    using run_post_run by blast
  with a have one: "shutdown (buf s) = 1"
    by (auto simp: run_post_def system_inv_def)
  from a show "fst (shutdown_watcher_trigger (buf s)) = buf s"
    by (simp add: shutdown_watcher_trigger_def)
  from one show "fst (producer_main_trigger (buf s)) = buf s"
    by (simp add: producer_main_trigger_def)
next
  assume a: "ring_ok rb \<and> count_rb rb = 0 \<and> shutdown rb = 0 \<and> g \<noteq> 0"
  then have ok: "ring_ok rb" and ok': "ring_ok (rb\<lparr>shutdown := 1\<rparr>)"
    by (simp_all add: ring_ok_def)
  show "consumer_take resumed g rb =
          Some (shutdown_drained, rb\<lparr>shutdown := 1\<rparr>,
                (if resumed then [] else [mutex_lock]) @
                [cond_broadcast not_empty, cond_broadcast not_full, mutex_unlock])"
    using a by (simp add: consumer_take_eq [OF ok])
  show "consumer_take False g (rb\<lparr>shutdown := 1\<rparr>) =
          Some (shutdown_drained, rb\<lparr>shutdown := 1\<rparr>, [mutex_lock, mutex_unlock])"
    using a by (simp add: consumer_take_eq [OF ok'])
qed (auto simp: shutdown_watcher_trigger_def producer_main_trigger_def main_trigger_def)

theorem trigger_shutdown_idempotent_witness:
  "shutdown (buf ex_start) = 0 \<and> shutdown (buf ex_mid) \<noteq> 0 \<and> shutdown (buf ex_mid) = 1 \<and>
   ring_ok (buf ex_start) \<and> count_rb (buf ex_start) = 0 \<and> (1::int) \<noteq> 0 \<and>
   shutdown_watcher_trigger (buf ex_start) =
     (buf ex_start\<lparr>shutdown := 1\<rparr>,
      [mutex_lock, printf signal_line, cond_broadcast not_empty, cond_broadcast not_full,
       mutex_unlock]) \<and>
   shutdown_watcher_trigger (buf ex_mid) = (buf ex_mid, [mutex_lock, mutex_unlock]) \<and>
   fst (producer_main_trigger (buf ex_mid)) = buf ex_mid \<and>
   consumer_take False 1 (buf ex_start) =
     Some (shutdown_drained, buf ex_start\<lparr>shutdown := 1\<rparr>,
           [mutex_lock, cond_broadcast not_empty, cond_broadcast not_full, mutex_unlock]) \<and>
   fst (producer_main_trigger (fst (shutdown_watcher_trigger (buf ex_start)))) =
     fst (shutdown_watcher_trigger (buf ex_start)) \<and>
   main_start 2 2 0 (Some (\<lambda>_. 0)) 0 0 0 = Inr ex_start \<and> 2 \<le> INT_MAX \<and>
   run ex_picks1 ex_start = Some (ex_mid, ex_trace1)"
proof -
  have h: "shutdown (buf ex_start) = 0" "shutdown (buf ex_mid) \<noteq> 0" "shutdown (buf ex_mid) = 1"
    "ring_ok (buf ex_start)" "count_rb (buf ex_start) = 0" "(1::int) \<noteq> 0"
    "(2::int) \<le> INT_MAX"
    by (simp_all add: ex_start_def ex_mid_def ring_ok_def INT_MAX_def)
  note t1 = trigger_shutdown_idempotent [where rb = "buf ex_start" and g = 1 and resumed = False]
  note t2 = trigger_shutdown_idempotent [where rb = "buf ex_mid" and g = 1 and resumed = False
      and N = 2 and B = 2 and T = 0 and mem = "Some (\<lambda>_. 0)" and mtx_rc = 0 and ne_rc = 0
      and nf_rc = 0 and ?s0.0 = ex_start and ps = ex_picks1 and s = ex_mid and es = ex_trace1]
  from t1 h have c1: "shutdown_watcher_trigger (buf ex_start) =
     (buf ex_start\<lparr>shutdown := 1\<rparr>,
      [mutex_lock, printf signal_line, cond_broadcast not_empty, cond_broadcast not_full,
       mutex_unlock])"
    by blast
  from t2 h have c2: "shutdown_watcher_trigger (buf ex_mid) = (buf ex_mid, [mutex_lock, mutex_unlock])"
    by blast
  from t2 h ex_start ex_run1 have c3: "fst (producer_main_trigger (buf ex_mid)) = buf ex_mid"
    by blast
  from t1 h have c4: "consumer_take False 1 (buf ex_start) =
     Some (shutdown_drained, buf ex_start\<lparr>shutdown := 1\<rparr>,
           [mutex_lock, cond_broadcast not_empty, cond_broadcast not_full, mutex_unlock])"
    by simp
  from t1 h have c5: "fst (producer_main_trigger (fst (shutdown_watcher_trigger (buf ex_start)))) =
     fst (shutdown_watcher_trigger (buf ex_start))"
    by blast
  show ?thesis
    using h c1 c2 c3 c4 c5 ex_start ex_run1 by blast
qed

subsection \<open>The final report\<close>

text \<open>
  C9, as the claim states it, fails: the program has no snapshot operation, and the final
  report of \<^verbatim>\<open>main\<close> reads the three fields without taking the lock. At the end of the
  example run the report is the one printed line and no call on the mutex.
\<close>

theorem final_report_takes_no_lock:
  "main_start 2 2 0 (Some (\<lambda>_. 0)) 0 0 0 = Inr ex_start \<and>
   run (ex_picks1 @ ex_picks2) ex_start = Some (ex_end, ex_trace1 @ ex_trace2) \<and>
   main_summary ex_end = goes_on (ex_end, [printf (summary_lines 1 1 0)]) \<and>
   mutex_lock \<notin> set [printf (summary_lines 1 1 0)]"
  using ex_start ex_run1 ex_run2
  by (simp add: run_append) (simp add: main_summary_def ex_end_def)

text \<open>
  C9, amended. The final report reads \<^verbatim>\<open>produced_total\<close>, \<^verbatim>\<open>consumed_total\<close> and \<^verbatim>\<open>count\<close>
  straight from the buffer and prints them, without modifying any state and without taking
  the lock. It is made only once every thread that \<^verbatim>\<open>main\<close> joins has returned: then no
  step of any thread changes the buffer any more, and \<^verbatim>\<open>main\<close>, when it is at these joins,
  prints the report and returns. (The count reported is 0 when a consumer was created;
  the second example run reports an item left.)
\<close>

theorem final_report_after_join:
  fixes s0 s s' :: "('l::len) system"
  assumes "main_start N B T mem mtx_rc ne_rc nf_rc = Inr s0" and "B \<le> INT_MAX"
    and "run ps s0 = Some (s, es)" and "main_summary s = goes_on (s', out)"
  shows
    "s' = s \<and>
     out = [printf (summary_lines (unat (produced_total (buf s)))
                                  (unat (consumed_total (buf s))) (count_rb (buf s)))] \<and>
     mutex_lock \<notin> set out \<and>
     watcher s = stopped \<and> producer s = stopped \<and> (\<forall>c \<in> set (consumers s). c = stopped) \<and>
     step watcher_thread s = Some (s, []) \<and> step producer_thread s = Some (s, []) \<and>
     (\<forall>i. step (consumer_thread i) s = Some (s, [])) \<and>
     (main_pc s = join_all \<longrightarrow>
        step (main_thread rc) s = Some (s\<lparr>main_pc := returned EXIT_SUCCESS\<rparr>, out)) \<and>
     (consumers s \<noteq> [] \<longrightarrow> count_rb (buf s) = 0)"
proof -
  have i0: "system_inv s0"
    using main_start_inv [OF assms(1,2)] by simp
  have post: "run_post s0 s es"
    by (rule run_post_run [OF i0 assms(3)])
  then have inv: "system_inv s"
    by (simp add: run_post_def)
  from assms(4) have w0: "watcher s = stopped" and p0: "producer s = stopped"
    and t0: "\<forall>c \<in> set (take (nat (main_N s)) (consumers s)). c = stopped"
    and s': "s' = s"
    and out: "out = [printf (summary_lines (unat (produced_total (buf s)))
                                  (unat (consumed_total (buf s))) (count_rb (buf s)))]"
    by (auto simp: main_summary_def split: if_splits)
  from t0 have c0: "\<forall>c \<in> set (consumers s). c = stopped"
    by (simp add: joined_consumers [OF inv])
  have w: "step watcher_thread s = Some (s, [])"
    using w0 by (simp add: shutdown_watcher_step_def)
  have p: "step producer_thread s = Some (s, [])"
    using p0 by (simp add: producer_main_step_def)
  have c: "step (consumer_thread i) s = Some (s, [])" for i
  proof -
    have "length (consumers s) \<le> i \<or> consumers s ! i = stopped"
      using c0 nth_mem [of i "consumers s"] by fastforce
    then show ?thesis by (simp add: consumer_main_step_def)
  qed
  have m: "step (main_thread rc) s = Some (s\<lparr>main_pc := returned EXIT_SUCCESS\<rparr>, out)"
    if "main_pc s = join_all"
    using that assms(4) s' by (simp add: main_step_def)
  have z: "count_rb (buf s) = 0" if "consumers s \<noteq> []"
  proof -
    from that obtain x where "x \<in> set (consumers s)" by (cases "consumers s") auto
    with c0 have "stopped \<in> set (consumers s)" by auto
    with inv show ?thesis by (simp add: system_inv_def)
  qed
  show ?thesis
    using w0 p0 c0 s' out w p c m z by simp
qed

theorem final_report_after_join_witness:
  "main_start 2 2 0 (Some (\<lambda>_. 0)) 0 0 0 = Inr ex_start \<and> 2 \<le> INT_MAX \<and>
   run (ex_picks1 @ ex_picks2) ex_start = Some (ex_end, ex_trace1 @ ex_trace2) \<and>
   main_summary ex_end = goes_on (ex_end, [printf (summary_lines 1 1 0)]) \<and>
   main_pc ex_end = join_all \<and> consumers ex_end \<noteq> [] \<and>
   mutex_lock \<notin> set [printf (summary_lines 1 1 0)] \<and>
   watcher ex_end = stopped \<and> producer ex_end = stopped \<and>
   step producer_thread ex_end = Some (ex_end, []) \<and>
   step (main_thread 0) ex_end =
     Some (ex_end\<lparr>main_pc := returned EXIT_SUCCESS\<rparr>, [printf (summary_lines 1 1 0)]) \<and>
   count_rb (buf ex_end) = 0"
proof -
  have b: "(2::int) \<le> INT_MAX"
    by (simp add: INT_MAX_def)
  have r: "run (ex_picks1 @ ex_picks2) ex_start = Some (ex_end, ex_trace1 @ ex_trace2)"
    using ex_run1 ex_run2 by (simp add: run_append)
  have m: "main_summary ex_end = goes_on (ex_end, [printf (summary_lines 1 1 0)])"
    by (simp add: main_summary_def ex_end_def)
  have e: "main_pc ex_end = join_all" "consumers ex_end \<noteq> []"
    by (simp_all add: ex_end_def)
  show ?thesis
    using b r m e ex_start final_report_after_join [OF ex_start b r m, of 0] by simp
qed

subsection \<open>The producer's counter\<close>

lemma pp_start: "main_start 1 1 0 (Some (\<lambda>_. 0)) 0 0 0 = Inr pp_start"
  by (simp add: main_start_def rb_init_def pp_start_def)

lemma pp_boot: "run pp_boot pp_start = Some (pp_state 0, [])"
  by (simp add: pp_boot_def pp_start_def pp_state_def eval_defs)

lemma ping_pong_Suc:
  "ping_pong (Suc n) = ping_pong n @ [producer_thread, producer_thread, consumer_thread 0]"
  unfolding ping_pong_def by (induction n) simp_all

lemma pp_round:
  assumes "int n + 1 < INT_MAX"
  shows "\<exists>es. run [producer_thread, producer_thread, consumer_thread 0] (pp_state n) =
           Some (pp_state (Suc n), es)"
  using assms by (simp add: pp_state_def eval_defs add.commute)

lemma pp_run:
  assumes "int n < INT_MAX"
  shows "\<exists>es. run (ping_pong n) (pp_state 0) = Some (pp_state n, es)"
  using assms
proof (induction n)
  case 0
  then show ?case by (simp add: ping_pong_def)
next
  case (Suc n)
  then obtain es1 where r1: "run (ping_pong n) (pp_state 0) = Some (pp_state n, es1)"
    by auto
  from Suc.prems obtain es2
    where r2: "run [producer_thread, producer_thread, consumer_thread 0] (pp_state n) =
           Some (pp_state (Suc n), es2)"
    using pp_round [of n] by auto
  show ?case
    using r1 r2 by (simp add: ping_pong_Suc run_append del: run.simps)
qed

text \<open>
  C8, as the claim states it, fails in its second half: the code does nothing about the
  overflow of the producer's counter. From the start of the program with one consumer and
  one slot, once \<^verbatim>\<open>main\<close> has created the threads and after 2147483646 rounds of a put and a
  take, the counter is \<^verbatim>\<open>INT_MAX\<close>; the producer's next read of the stop flag is still
  defined, and its next put runs into the signed overflow of \<^verbatim>\<open>value++\<close>, which C leaves
  undefined.
\<close>

theorem producer_counter_overflow_undefined:
  "main_start 1 1 0 (Some (\<lambda>_. 0)) 0 0 0 = Inr pp_start \<and>
   run (pp_boot @ ping_pong 2147483646 @ [producer_thread]) pp_start \<noteq> None \<and>
   run (pp_boot @ ping_pong 2147483646 @ [producer_thread, producer_thread]) pp_start = None"
proof -
  obtain es where r: "run (ping_pong 2147483646) (pp_state 0) = Some (pp_state 2147483646, es)"
    using pp_run [of 2147483646] by (auto simp: INT_MAX_def)
  have a: "run [producer_thread] (pp_state 2147483646) \<noteq> None"
    by (simp add: pp_state_def eval_defs)
  have b: "run [producer_thread, producer_thread] (pp_state 2147483646) = None"
    by (simp add: pp_state_def eval_defs)
  show ?thesis
    using pp_start pp_boot r a b by (auto simp: run_append simp del: run.simps)
qed

text \<open>
  C8, amended. The values the producer puts are the counter 1, 2, 3, ... without a gap:
  after every run of the program the values put so far are 1 up to \<open>value - 1\<close>, where
  \<^verbatim>\<open>value\<close> is the producer's counter, a positive \<^verbatim>\<open>int\<close>. A successful put sends the
  current counter, and the producer then increments it, as long as the counter is below
  \<^verbatim>\<open>INT_MAX\<close>. The code does nothing about the overflow of the counter: after a
  successful put of \<^verbatim>\<open>INT_MAX\<close> the increment is undefined.
\<close>

theorem producer_value_sequence:
  fixes s0 s :: "('l::len) system"
  assumes "main_start N B T mem mtx_rc ne_rc nf_rc = Inr s0" and "B \<le> INT_MAX"
    and "run ps s0 = Some (s, es)"
  shows
    "produced es = [1..prod_value s - 1] \<and> 1 \<le> prod_value s \<and> prod_value s \<le> INT_MAX \<and>
     (\<forall>rb' es'. producer_put resumed (buf s) (prod_value s) = Some (put_success, rb', es') \<longrightarrow>
        produced es' = [prod_value s] \<and>
        producer_main_put resumed s =
          (if prod_value s < INT_MAX
           then Some (s\<lparr>buf := rb', producer := running, prod_value := prod_value s + 1\<rparr>, es')
           else None))"
proof -
  have i0: "system_inv s0" and v0: "prod_value s0 = 1"
    using main_start_inv [OF assms(1,2)] by simp_all
  have post: "run_post s0 s es"
    by (rule run_post_run [OF i0 assms(3)])
  then have seq: "produced es = [1..prod_value s - 1]"
    using v0 by (simp add: run_post_def)
  have inv: "system_inv s"
    using post by (simp add: run_post_def)
  then have v: "1 \<le> prod_value s" "prod_value s \<le> INT_MAX"
    and ok: "ring_ok (buf s)"
    by (simp_all add: system_inv_def ring_inv_def)
  have put: "produced es' = [prod_value s] \<and>
        producer_main_put resumed s =
          (if prod_value s < INT_MAX
           then Some (s\<lparr>buf := rb', producer := running, prod_value := prod_value s + 1\<rparr>, es')
           else None)"
    if "producer_put resumed (buf s) (prod_value s) = Some (put_success, rb', es')" for rb' es'
  proof -
    from that have "produced es' = [prod_value s]"
      by (auto simp: producer_put_eq [OF ok] split: if_splits)
    moreover have "producer_main_put resumed s =
          (if prod_value s < INT_MAX
           then Some (s\<lparr>buf := rb', producer := running, prod_value := prod_value s + 1\<rparr>, es')
           else None)"
      using that v by (simp add: producer_main_put_def int_add_def INT_MIN_def)
    ultimately show ?thesis by simp
  qed
  show ?thesis
    using seq v put by blast
qed

theorem producer_value_sequence_witness:
  "main_start 2 2 0 (Some (\<lambda>_. 0)) 0 0 0 = Inr ex_start \<and> 2 \<le> INT_MAX \<and>
   run [main_thread 0, main_thread 0, producer_thread, producer_thread, producer_thread,
        producer_thread] ex_start =
     Some (ex_start\<lparr>buf := (buf ex_start)\<lparr>data := [1, 2], count_rb := 2,
                                            produced_total := 2\<rparr>,
                    main_pc := alloc_consumers, watcher := running, producer := running,
                    prod_value := 3\<rparr>,
           [mutex_lock, printf (producer_line 1 1), cond_signal not_empty, mutex_unlock,
            mutex_lock, printf (producer_line 2 2), cond_signal not_empty, mutex_unlock]) \<and>
   produced [mutex_lock, printf (producer_line 1 1), cond_signal not_empty, mutex_unlock,
             mutex_lock, printf (producer_line 2 2), cond_signal not_empty, mutex_unlock] =
     [1, 2] \<and>
   run [] ex_start = Some (ex_start, []) \<and>
   producer_put False (buf ex_start) (prod_value ex_start) =
     Some (put_success, buf ex_mid\<lparr>shutdown := 0\<rparr>,
           [mutex_lock, printf (producer_line 1 1), cond_signal not_empty, mutex_unlock]) \<and>
   producer_main_put False ex_start =
     Some (ex_start\<lparr>buf := buf ex_mid\<lparr>shutdown := 0\<rparr>, producer := running,
                    prod_value := 2\<rparr>,
           [mutex_lock, printf (producer_line 1 1), cond_signal not_empty, mutex_unlock])"
proof -
  let ?s = "ex_start\<lparr>buf := (buf ex_start)\<lparr>data := [1, 2], count_rb := 2,
                                            produced_total := 2\<rparr>,
                    main_pc := alloc_consumers, watcher := running, producer := running,
                    prod_value := 3\<rparr>"
  let ?es = "[mutex_lock, printf (producer_line 1 1), cond_signal not_empty, mutex_unlock,
            mutex_lock, printf (producer_line 2 2), cond_signal not_empty, mutex_unlock]"
  have b: "(2::int) \<le> INT_MAX"
    by (simp add: INT_MAX_def)
  have r: "run [main_thread 0, main_thread 0, producer_thread, producer_thread,
        producer_thread, producer_thread] ex_start = Some (?s, ?es)"
    by (simp add: ex_start_def eval_defs)
  have r0: "run [] ex_start = Some (ex_start, [])"
    by simp
  have p: "producer_put False (buf ex_start) (prod_value ex_start) =
     Some (put_success, buf ex_mid\<lparr>shutdown := 0\<rparr>,
           [mutex_lock, printf (producer_line 1 1), cond_signal not_empty, mutex_unlock])"
    by (simp add: ex_start_def ex_mid_def eval_defs)
  have v: "prod_value ex_start < INT_MAX" "prod_value ex_start + 1 = 2"
    by (simp_all add: ex_start_def INT_MAX_def)
  from producer_value_sequence [OF ex_start b r, of False]
  have c1: "produced ?es = [1..prod_value ?s - 1]"
    by blast
  then have c1': "produced ?es = [1, 2]"
    by simp
  from producer_value_sequence [OF ex_start b r0, of False] p v
  have c2: "producer_main_put False ex_start =
     Some (ex_start\<lparr>buf := buf ex_mid\<lparr>shutdown := 0\<rparr>, producer := running,
                    prod_value := 2\<rparr>,
           [mutex_lock, printf (producer_line 1 1), cond_signal not_empty, mutex_unlock])"
    by simp
  show ?thesis
    using b r r0 p ex_start c1' c2 by blast
qed

end
